theory Spec2Isabelle
  imports Complex_Main
begin

section \<open>MacCormack stepper: the embedding\<close>

text \<open>
  The development follows \<^verbatim>\<open>MacCormackStepper.run\<close> of
  \<^verbatim>\<open>macCormack_stepper.py\<close>. Every exception that Python or numpy raises on the
  modelled paths is a value \<open>Inl e\<close>; a loop that does not end is \<open>None\<close>.

  Python floats are IEEE binary64 numbers. The scalar arithmetic that decides the control
  flow of \<^verbatim>\<open>run\<close>, that is the timestep of line 102, the clamp of lines 105 and 106 and
  the time of line 109, is rounded to the nearest binary64 number after every operation,
  as the interpreter does. The entries of the arrays are exact reals: numpy does not fix
  the order and the fusion of the roundings of \<^verbatim>\<open>matmul\<close>, and the rounding of an entry
  changes its value, not the path taken. Infinities and NaNs are outside the model.
\<close>

subsection \<open>Errors\<close>

text \<open>
  The first four are the exceptions the interpreter and numpy raise in \<^verbatim>\<open>run\<close>.
  \<open>InvalidRangeError\<close> and \<open>DivergentStepError\<close> are the names the specification
  gives to two checks; no equation below produces them, as no line of the source does.
\<close>

datatype error =
  NameError | ValueError | IndexError | ZeroDivisionError
| InvalidRangeError | DivergentStepError

definition bindE :: "error + 'a \<Rightarrow> ('a \<Rightarrow> error + 'b) \<Rightarrow> error + 'b" where
  "bindE r f = (case r of Inl e \<Rightarrow> Inl e | Inr v \<Rightarrow> f v)"

fun for_each :: "('a \<Rightarrow> 's \<Rightarrow> error + 's) \<Rightarrow> 'a list \<Rightarrow> 's \<Rightarrow> error + 's" where
  "for_each body [] s = Inr s"
| "for_each body (i # is) s =
     (case body i s of Inl e \<Rightarrow> Inl e | Inr s' \<Rightarrow> for_each body is s')"

subsection \<open>Python floats\<close>

text \<open>Rounding to the nearest integer, a tie going to the even one.\<close>

definition rne :: "real \<Rightarrow> real" where
  "rne y =
     (let n = \<lfloor>y\<rfloor>; r = y - of_int n in
      if r < 1/2 then of_int n
      else if 1/2 < r then of_int n + 1
      else if even n then of_int n else of_int n + 1)"

text \<open>
  \<open>normalize n a 0\<close> scales the positive \<open>a\<close> by powers of two into \<open>[1, 2)\<close> and
  returns it with the exponent, which does not go below that of the smallest normal
  number; \<open>n\<close> bounds the number of scalings, and \<open>2200\<close> is enough for every binary64
  number.
\<close>

fun normalize :: "nat \<Rightarrow> real \<Rightarrow> int \<Rightarrow> real \<times> int" where
  "normalize n a e =
     (if n = 0 then (a, e)
      else if 2 \<le> a then normalize (n - 1) (a / 2) (e + 1)
      else if a < 1 \<and> - 1022 < e then normalize (n - 1) (a * 2) (e - 1)
      else (a, e))"

declare normalize.simps [simp del]

definition pow2 :: "int \<Rightarrow> real" where
  "pow2 i = (if 0 \<le> i then 2 ^ nat i else 1 / 2 ^ nat (- i))"

text \<open>
  The binary64 number nearest to \<open>x\<close>, ties to even: 53 significant bits, subnormal
  numbers included. A result beyond the largest binary64 number, which IEEE arithmetic
  replaces by an infinity, is outside the model.
\<close>

definition fl64 :: "real \<Rightarrow> real" where
  "fl64 x =
     (if x = 0 then 0
      else let (a, e) = normalize 2200 \<bar>x\<bar> 0
           in sgn x * (rne (a * 2 ^ 52) * pow2 (e - 52)))"

text \<open>The operations \<^verbatim>\<open>+\<close>, \<^verbatim>\<open>-\<close>, \<^verbatim>\<open>*\<close> and \<^verbatim>\<open>/\<close> on two floats; the divisor is not zero.\<close>

definition fadd :: "real \<Rightarrow> real \<Rightarrow> real" where
  "fadd a b = fl64 (a + b)"

definition fsub :: "real \<Rightarrow> real \<Rightarrow> real" where
  "fsub a b = fl64 (a - b)"

definition fmul :: "real \<Rightarrow> real \<Rightarrow> real" where
  "fmul a b = fl64 (a * b)"

definition fdiv :: "real \<Rightarrow> real \<Rightarrow> real" where
  "fdiv a b = fl64 (a / b)"

subsection \<open>numpy arrays\<close>

text \<open>
  A one-dimensional array is the list of its entries. A two-dimensional array of shape
  \<open>(r, c)\<close> with \<open>c > 0\<close> is the list of its \<open>c\<close> columns, each of length \<open>r\<close>:
  \<open>u ! j\<close> is \<^verbatim>\<open>u[:, j]\<close>, the only way the stepper reads or writes its buffers.
  The matrix a model returns as Jacobian is the list of its rows.
\<close>

type_synonym vec = "real list"
type_synonym ndarray = "vec list"

definition shape :: "ndarray \<Rightarrow> nat \<times> nat" where
  "shape a = (length (hd a), length a)"

definition is_array :: "ndarray \<Rightarrow> bool" where
  "is_array a = (a \<noteq> [] \<and> list_all (\<lambda>col. length col = length (hd a)) a)"

definition zeros :: "nat \<Rightarrow> nat \<Rightarrow> ndarray" where
  "zeros r c = replicate c (replicate r 0)"

text \<open>Elementwise binary operation on one-dimensional arrays, with numpy's broadcasting.\<close>

definition broadcast2 :: "(real \<Rightarrow> real \<Rightarrow> real) \<Rightarrow> vec \<Rightarrow> vec \<Rightarrow> error + vec" where
  "broadcast2 f a b =
     (if length a = length b then Inr (map2 f a b)
      else if length a = 1 then Inr (map (f (a ! 0)) b)
      else if length b = 1 then Inr (map (\<lambda>x. f x (b ! 0)) a)
      else Inl ValueError)"

definition subtract :: "vec \<Rightarrow> vec \<Rightarrow> error + vec" where
  "subtract a b = broadcast2 (\<lambda>x y. x - y) a b"

definition add :: "vec \<Rightarrow> vec \<Rightarrow> error + vec" where
  "add a b = broadcast2 (\<lambda>x y. x + y) a b"

definition scale :: "real \<Rightarrow> vec \<Rightarrow> vec" where
  "scale c v = map (\<lambda>x. c * x) v"

text \<open>
  An array divided by a scalar. At a zero divisor numpy stores infinities or NaNs and warns;
  the model has no such entries, and what is proved of a quotient is proved for a divisor
  that is not zero.
\<close>

definition divide :: "vec \<Rightarrow> real \<Rightarrow> vec" where
  "divide v d = map (\<lambda>x. x / d) v"

definition dot :: "vec \<Rightarrow> vec \<Rightarrow> real" where
  "dot r v = sum_list (map2 (\<lambda>x y. x * y) r v)"

text \<open>\<^verbatim>\<open>np.matmul(J, v)\<close> for a two-dimensional \<open>J\<close> (rows) and a one-dimensional \<open>v\<close>.\<close>

definition matmul :: "vec list \<Rightarrow> vec \<Rightarrow> error + vec" where
  "matmul J v =
     (if list_all (\<lambda>row. length row = length v) J then Inr (map (\<lambda>row. dot row v) J)
      else Inl ValueError)"

text \<open>\<^verbatim>\<open>np.amax\<close> of a one-dimensional array; numpy refuses an empty one.\<close>

definition amax :: "vec \<Rightarrow> error + real" where
  "amax v = (case v of [] \<Rightarrow> Inl ValueError | x # xs \<Rightarrow> Inr (fold max xs x))"

text \<open>
  What an assignment to a slot of length \<open>r\<close> stores for the value \<open>v\<close>: \<open>v\<close> itself
  when the lengths agree, its single entry repeated when \<open>v\<close> has length one.
\<close>

definition fit :: "nat \<Rightarrow> vec \<Rightarrow> vec option" where
  "fit r v =
     (if length v = r then Some v
      else if length v = 1 then Some (replicate r (v ! 0))
      else None)"

text \<open>The assignment \<^verbatim>\<open>u[:, i] = v\<close>.\<close>

definition setcol :: "ndarray \<Rightarrow> nat \<Rightarrow> vec \<Rightarrow> error + ndarray" where
  "setcol u i v =
     (if length u \<le> i then Inl IndexError
      else case fit (length (u ! i)) v of
             None \<Rightarrow> Inl ValueError
           | Some w \<Rightarrow> Inr (u[i := w]))"

text \<open>
  \<^verbatim>\<open>np.copyto(dst, src)\<close> for two-dimensional arrays: the new contents of \<open>dst\<close>.
  \<open>src\<close> is broadcast to the shape of \<open>dst\<close>; numpy raises when it cannot be.
\<close>

definition copyto :: "ndarray \<Rightarrow> ndarray \<Rightarrow> error + ndarray" where
  "copyto dst src =
     (let r = length (hd dst); c = length dst; r' = length (hd src); c' = length src in
      if is_array src \<and> (c' = c \<or> c' = 1) \<and> (r' = r \<or> r' = 1)
      then Inr (map (\<lambda>j. let col = (if c' = c then src ! j else src ! 0)
                          in if r' = r then col else replicate r (col ! 0)) [0..<c])
      else Inl ValueError)"

subsection \<open>The collaborators\<close>

text \<open>
  Modelled from the spec: the class \<^verbatim>\<open>Grid1D\<close> is imported by the source and not
  part of it. The specification gives it a node count \<open>nx\<close>, a spacing \<open>dx\<close> (a plain
  real scalar, that is a Python float) and the coordinate sequence \<open>X\<close>.
\<close>

record Grid1D =
  nx :: nat
  dx :: real
  X :: "real list"

text \<open>
  Modelled from the spec: the model object is supplied by the caller. The specification
  makes it a stateless provider of the variable count, the Jacobian and its eigenvalues
  at a position, and the two boundary updaters, called with
  \<open>(x, t, dx, dt, previous state)\<close>.
\<close>

record Model =
  numVars :: nat
  jacobian :: "real \<Rightarrow> vec list"
  jacEigenvalues :: "real \<Rightarrow> vec"
  applyLeftBC :: "real \<Rightarrow> real \<Rightarrow> real \<Rightarrow> real \<Rightarrow> ndarray \<Rightarrow> vec"
  applyRightBC :: "real \<Rightarrow> real \<Rightarrow> real \<Rightarrow> real \<Rightarrow> ndarray \<Rightarrow> vec"

text \<open>
  The attributes of the stepper that \<^verbatim>\<open>run\<close> only reads. Its fourth attribute,
  \<^verbatim>\<open>history\<close>, is mutated by \<^verbatim>\<open>run\<close> and lives in the state below.
\<close>

record MacCormackStepper =
  grid :: Grid1D
  model :: Model
  epsilon :: real

subsection \<open>The state of a run\<close>

text \<open>A call of a boundary updater, with its five arguments.\<close>

datatype call =
  LeftBC real real real real ndarray
| RightBC real real real real ndarray

text \<open>
  Arrays are objects: \<open>cells\<close> maps an address to the array stored there and
  \<open>fresh\<close> is the next unused address. The local names \<^verbatim>\<open>u_prev\<close>, \<^verbatim>\<open>u_pred\<close>
  and \<^verbatim>\<open>u_cur\<close> hold addresses, and so does each entry of \<open>history\<close>, beside its
  time. \<open>t_cur\<close> is the local \<^verbatim>\<open>t\<close>. \<open>calls\<close> logs the boundary updater calls in
  the order they are made.
\<close>

record state =
  cells :: "nat \<Rightarrow> ndarray"
  fresh :: nat
  history :: "(real \<times> nat) list"
  calls :: "call list"
  u_prev :: nat
  u_pred :: nat
  u_cur :: nat
  t_cur :: real
  n_steps :: nat

text \<open>The history as a reader sees it: every entry with the array at its address.\<close>

definition snapshots :: "state \<Rightarrow> (real \<times> ndarray) list" where
  "snapshots s = map (\<lambda>e. (fst e, cells s (snd e))) (history s)"

text \<open>\<^verbatim>\<open>self.history.append((t, deepcopy(u_cur)))\<close>: the copy is a new object.\<close>

definition record_history :: "state \<Rightarrow> state" where
  "record_history s =
     s\<lparr>cells := (cells s)(fresh s := cells s (u_cur s)),
       fresh := fresh s + 1,
       history := history s @ [(t_cur s, fresh s)]\<rparr>"

subsection \<open>Lines 55 to 82: buffers, initial value, first history entry\<close>

text \<open>
  Lines 55 to 57 read \<^verbatim>\<open>grid.nx\<close>, not \<^verbatim>\<open>self.grid.nx\<close>: the name is looked up
  among the globals of the module. \<open>genv\<close> is that binding, \<open>None\<close> when the module has
  no global of that name.
\<close>

definition run_init ::
  "Grid1D option \<Rightarrow> MacCormackStepper \<Rightarrow> real \<Rightarrow> ndarray \<Rightarrow> state \<Rightarrow> error + state" where
  "run_init genv self t_init u_init s =
     (case genv of
        None \<Rightarrow> Inl NameError
      | Some g \<Rightarrow>
          let z = zeros (numVars (model self)) (nx g + 1);
              a = fresh s;
              s1 = s\<lparr>cells := (cells s)(a := z, a + 1 := z, a + 2 := z),
                     fresh := a + 3, u_prev := a, u_pred := a + 1, u_cur := a + 2\<rparr>
          in bindE (copyto (cells s1 (u_cur s1)) u_init) (\<lambda>c.
             Inr (record_history
                    (s1\<lparr>cells := (cells s1)(u_cur s1 := c), t_cur := t_init,
                        n_steps := 0, history := []\<rparr>))))"

subsection \<open>Lines 94 to 109: the timestep\<close>

fun lambda_max_loop :: "Model \<Rightarrow> real list \<Rightarrow> real \<Rightarrow> error + real" where
  "lambda_max_loop md [] lambda_max = Inr lambda_max"
| "lambda_max_loop md (x # xs) lambda_max =
     (case amax (map abs (jacEigenvalues md x)) of
        Inl e \<Rightarrow> Inl e
      | Inr local_lambda_max \<Rightarrow> lambda_max_loop md xs (max lambda_max local_lambda_max))"

text \<open>
  Line 102. \<^verbatim>\<open>dx / lambda_max\<close> divides two Python floats, which raises at zero.
\<close>

definition cfl_timestep :: "MacCormackStepper \<Rightarrow> error + real" where
  "cfl_timestep self =
     bindE (lambda_max_loop (model self) (X (grid self)) 0) (\<lambda>lambda_max.
       if lambda_max = 0 then Inl ZeroDivisionError
       else Inr (fmul (epsilon self) (fdiv (dx (grid self)) lambda_max)))"

text \<open>Lines 105 and 106.\<close>

definition clamp_dt :: "real \<Rightarrow> real \<Rightarrow> real \<Rightarrow> real" where
  "clamp_dt t_final t dt = (if fsub t_final t \<le> dt then fsub t_final t else dt)"

definition step_dt :: "MacCormackStepper \<Rightarrow> real \<Rightarrow> real \<Rightarrow> error + real" where
  "step_dt self t_final t = bindE (cfl_timestep self) (\<lambda>dt. Inr (clamp_dt t_final t dt))"

subsection \<open>Lines 111 to 133: predictor, boundaries, corrector\<close>

text \<open>The value line 115 assigns to \<^verbatim>\<open>u_pred[:, i]\<close>, from the array \<open>up\<close> of \<^verbatim>\<open>u_prev\<close>.\<close>

definition predictor_value :: "MacCormackStepper \<Rightarrow> real \<Rightarrow> ndarray \<Rightarrow> nat \<Rightarrow> error + vec" where
  "predictor_value self dt up i =
     (if length up \<le> i + 1 then Inl IndexError
      else bindE (subtract (up ! (i + 1)) (up ! i)) (\<lambda>d.
        let dudx = divide d (dx (grid self)) in
        if length (X (grid self)) \<le> i then Inl IndexError
        else bindE (matmul (jacobian (model self) (X (grid self) ! i)) dudx) (\<lambda>Jd.
          subtract (up ! i) (scale dt Jd))))"

definition predictor_body :: "MacCormackStepper \<Rightarrow> real \<Rightarrow> nat \<Rightarrow> state \<Rightarrow> error + state" where
  "predictor_body self dt i s =
     bindE (predictor_value self dt (cells s (u_prev s)) i) (\<lambda>v.
     bindE (setcol (cells s (u_pred s)) i v) (\<lambda>a.
     Inr (s\<lparr>cells := (cells s)(u_pred s := a)\<rparr>)))"

text \<open>
  The value line 128 assigns to \<^verbatim>\<open>u_cur[:, i]\<close>, from the arrays \<open>up\<close> of
  \<^verbatim>\<open>u_prev\<close> and \<open>upd\<close> of \<^verbatim>\<open>u_pred\<close>. The loop calls it with \<open>1 \<le> i\<close> only.
\<close>

definition corrector_value ::
  "MacCormackStepper \<Rightarrow> real \<Rightarrow> ndarray \<Rightarrow> ndarray \<Rightarrow> nat \<Rightarrow> error + vec" where
  "corrector_value self dt up upd i =
     (if length upd \<le> i then Inl IndexError
      else bindE (subtract (upd ! i) (upd ! (i - 1))) (\<lambda>d.
        let dudx = divide d (dx (grid self)) in
        if length (X (grid self)) \<le> i then Inl IndexError
        else let J = jacobian (model self) (X (grid self) ! i) in
        if length up \<le> i then Inl IndexError
        else bindE (add (upd ! i) (up ! i)) (\<lambda>sm.
          let uMid = scale 0.5 sm in
          bindE (matmul J dudx) (\<lambda>Jd.
            subtract uMid (scale (0.5 * dt) Jd)))))"

definition corrector_body :: "MacCormackStepper \<Rightarrow> real \<Rightarrow> nat \<Rightarrow> state \<Rightarrow> error + state" where
  "corrector_body self dt i s =
     bindE (corrector_value self dt (cells s (u_prev s)) (cells s (u_pred s)) i) (\<lambda>v.
     bindE (setcol (cells s (u_cur s)) i v) (\<lambda>a.
     Inr (s\<lparr>cells := (cells s)(u_cur s := a)\<rparr>)))"

text \<open>Lines 118 to 121.\<close>

definition left_bc :: "MacCormackStepper \<Rightarrow> real \<Rightarrow> real \<Rightarrow> state \<Rightarrow> error + state" where
  "left_bc self t_step dt s =
     (if X (grid self) = [] then Inl IndexError
      else
        let x0 = X (grid self) ! 0;
            up = cells s (u_prev s);
            v = applyLeftBC (model self) x0 t_step (dx (grid self)) dt up;
            s1 = s\<lparr>calls := calls s @ [LeftBC x0 t_step (dx (grid self)) dt up]\<rparr>
        in bindE (setcol (cells s1 (u_cur s1)) 0 v) (\<lambda>a.
           let s2 = s1\<lparr>cells := (cells s1)(u_cur s1 := a)\<rparr> in
           bindE (setcol (cells s2 (u_pred s2)) 0 (cells s2 (u_cur s2) ! 0)) (\<lambda>b.
           Inr (s2\<lparr>cells := (cells s2)(u_pred s2 := b)\<rparr>))))"

text \<open>Lines 131 to 133; the column index \<^verbatim>\<open>-1\<close> is the last column.\<close>

definition right_bc :: "MacCormackStepper \<Rightarrow> real \<Rightarrow> real \<Rightarrow> state \<Rightarrow> error + state" where
  "right_bc self t_step dt s =
     (if X (grid self) = [] then Inl IndexError
      else
        let xN = last (X (grid self));
            up = cells s (u_prev s);
            v = applyRightBC (model self) xN t_step (dx (grid self)) dt up;
            s1 = s\<lparr>calls := calls s @ [RightBC xN t_step (dx (grid self)) dt up]\<rparr>;
            uc = cells s1 (u_cur s1)
        in bindE (setcol uc (length uc - 1) v) (\<lambda>a.
           Inr (s1\<lparr>cells := (cells s1)(u_cur s1 := a)\<rparr>)))"

subsection \<open>Lines 87 to 139: one iteration, the loop, the run\<close>

text \<open>Lines 89 to 121: the timestep of the iteration and the state at the corrector's start.\<close>

definition step_to_corrector ::
  "MacCormackStepper \<Rightarrow> real \<Rightarrow> state \<Rightarrow> error + real \<times> state" where
  "step_to_corrector self t_final s =
     (let s1 = s\<lparr>n_steps := n_steps s + 1\<rparr> in
      bindE (copyto (cells s1 (u_prev s1)) (cells s1 (u_cur s1))) (\<lambda>a.
      let s2 = s1\<lparr>cells := (cells s1)(u_prev s1 := a)\<rparr> in
      bindE (step_dt self t_final (t_cur s2)) (\<lambda>dt.
      bindE (for_each (predictor_body self dt) [1..<nx (grid self)] s2) (\<lambda>s3.
      bindE (left_bc self (fadd (t_cur s3) dt) dt s3) (\<lambda>s4. Inr (dt, s4))))))"

definition step :: "MacCormackStepper \<Rightarrow> real \<Rightarrow> state \<Rightarrow> error + state" where
  "step self t_final s =
     bindE (step_to_corrector self t_final s) (\<lambda>(dt, s4).
     bindE (for_each (corrector_body self dt) [1..<nx (grid self)] s4) (\<lambda>s5.
     bindE (right_bc self (fadd (t_cur s5) dt) dt s5) (\<lambda>s6.
     Inr (record_history (s6\<lparr>t_cur := fadd (t_cur s6) dt\<rparr>)))))"

partial_function (option) run_loop ::
  "MacCormackStepper \<Rightarrow> real \<Rightarrow> state \<Rightarrow> (error + state) option" where
  "run_loop self t_final s =
     (if t_cur s < t_final
      then (case step self t_final s of
              Inl e \<Rightarrow> Some (Inl e)
            | Inr s' \<Rightarrow> run_loop self t_final s')
      else Some (Inr s))"

definition run ::
  "Grid1D option \<Rightarrow> MacCormackStepper \<Rightarrow> real \<Rightarrow> real \<Rightarrow> ndarray \<Rightarrow> state
     \<Rightarrow> (error + state) option" where
  "run genv self t_init t_final u_init s =
     (case run_init genv self t_init u_init s of
        Inl e \<Rightarrow> Some (Inl e)
      | Inr s0 \<Rightarrow> run_loop self t_final s0)"

text \<open>
  The states at the loop test of \<^verbatim>\<open>run\<close>: the one lines 55 to 82 build from
  the caller's state \<open>s0\<close>, and each one a completed iteration leads to.
\<close>

inductive iterates ::
  "Grid1D option \<Rightarrow> MacCormackStepper \<Rightarrow> real \<Rightarrow> real \<Rightarrow> ndarray \<Rightarrow> state \<Rightarrow> state \<Rightarrow> bool"
  for genv self t_init t_final u_init s0 where
  first: "run_init genv self t_init u_init s0 = Inr s
            \<Longrightarrow> iterates genv self t_init t_final u_init s0 s"
| again: "iterates genv self t_init t_final u_init s0 s \<Longrightarrow> t_cur s < t_final
            \<Longrightarrow> step self t_final s = Inr s'
            \<Longrightarrow> iterates genv self t_init t_final u_init s0 s'"

text \<open>One completed iteration of the loop leads from \<open>s\<close> to \<open>s'\<close>.\<close>

definition advance :: "MacCormackStepper \<Rightarrow> real \<Rightarrow> state \<Rightarrow> state \<Rightarrow> bool" where
  "advance self t_final s s' = (t_cur s < t_final \<and> step self t_final s = Inr s')"

text \<open>The exceptions of the interpreter and of numpy, as opposed to the specification's.\<close>

definition builtin :: "error \<Rightarrow> bool" where
  "builtin e = (e = NameError \<or> e = ValueError \<or> e = IndexError \<or> e = ZeroDivisionError)"

subsection \<open>Well-formed buffers\<close>

text \<open>An array of \<open>c\<close> columns of length \<open>r\<close>, that is of numpy shape \<open>(r, c)\<close>.\<close>

definition has_shape :: "nat \<Rightarrow> nat \<Rightarrow> ndarray \<Rightarrow> bool" where
  "has_shape r c a = (map length a = replicate c r)"

text \<open>
  The three working buffers are three different allocated objects of one shape
  \<open>(r, c)\<close>, with at least one column.
\<close>

definition buffers_ok :: "nat \<Rightarrow> nat \<Rightarrow> state \<Rightarrow> bool" where
  "buffers_ok r c s =
     (u_prev s \<noteq> u_pred s \<and> u_prev s \<noteq> u_cur s \<and> u_pred s \<noteq> u_cur s
      \<and> u_prev s < fresh s \<and> u_pred s < fresh s \<and> u_cur s < fresh s
      \<and> 0 < c
      \<and> has_shape r c (cells s (u_prev s))
      \<and> has_shape r c (cells s (u_pred s))
      \<and> has_shape r c (cells s (u_cur s)))"

subsection \<open>A small run\<close>

text \<open>
  Three nodes, one variable, unit wave speed: the objects the theorems are instantiated
  at. With \<open>epsilon = 1/2\<close> and \<open>dx = 1/2\<close> the timestep is \<open>1/4\<close>, so a run from
  \<open>0\<close> to \<open>1/2\<close> takes two iterations, the second one clamped.
\<close>

definition demo_grid :: Grid1D where
  "demo_grid = \<lparr>nx = 2, dx = 1/2, X = [0, 1/2, 1]\<rparr>"

definition demo_model :: Model where
  "demo_model =
     \<lparr>numVars = 1, jacobian = (\<lambda>x. [[1]]), jacEigenvalues = (\<lambda>x. [-1]),
      applyLeftBC = (\<lambda>x t h k up. [t]), applyRightBC = (\<lambda>x t h k up. up ! 1)\<rparr>"

definition demo_stepper :: MacCormackStepper where
  "demo_stepper = \<lparr>grid = demo_grid, model = demo_model, epsilon = 1/2\<rparr>"

definition demo_u0 :: ndarray where
  "demo_u0 = [[0], [1], [4]]"

text \<open>The caller's state: an empty heap, and a history left by an earlier run.\<close>

definition demo_state :: state where
  "demo_state =
     \<lparr>cells = (\<lambda>a. []), fresh = 0, history = [(7, 0)], calls = [],
      u_prev = 0, u_pred = 0, u_cur = 0, t_cur = 0, n_steps = 0\<rparr>"

text \<open>
  The states at the loop test of the run from \<open>0\<close> to \<open>1/2\<close>: after lines 55 to 82, after
  the first iteration and after the second.
\<close>

definition demo_first :: state where
  "demo_first =
     \<lparr>cells = (\<lambda>a. [])(0 := [[0], [0], [0]], 1 := [[0], [0], [0]], 2 := [[0], [1], [4]],
                       3 := [[0], [1], [4]]),
      fresh = 4, history = [(0, 3)], calls = [],
      u_prev = 0, u_pred = 1, u_cur = 2, t_cur = 0, n_steps = 0\<rparr>"

definition demo_second :: state where
  "demo_second =
     \<lparr>cells = (\<lambda>a. [])(0 := [[0], [1], [4]], 1 := [[1/4], [- 1/2], [0]],
                       2 := [[1/4], [7/16], [1]], 3 := [[0], [1], [4]],
                       4 := [[1/4], [7/16], [1]]),
      fresh = 5, history = [(0, 3), (1/4, 4)],
      calls = [LeftBC 0 (1/4) (1/2) (1/4) [[0], [1], [4]],
               RightBC 1 (1/4) (1/2) (1/4) [[0], [1], [4]]],
      u_prev = 0, u_pred = 1, u_cur = 2, t_cur = 1/4, n_steps = 1\<rparr>"

definition demo_third :: state where
  "demo_third =
     \<lparr>cells = (\<lambda>a. [])(0 := [[1/4], [7/16], [1]], 1 := [[1/2], [5/32], [0]],
                       2 := [[1/2], [49/128], [7/16]], 3 := [[0], [1], [4]],
                       4 := [[1/4], [7/16], [1]], 5 := [[1/2], [49/128], [7/16]]),
      fresh = 6, history = [(0, 3), (1/4, 4), (1/2, 5)],
      calls = [LeftBC 0 (1/4) (1/2) (1/4) [[0], [1], [4]],
               RightBC 1 (1/4) (1/2) (1/4) [[0], [1], [4]],
               LeftBC 0 (1/2) (1/2) (1/4) [[1/4], [7/16], [1]],
               RightBC 1 (1/2) (1/2) (1/4) [[1/4], [7/16], [1]]],
      u_prev = 0, u_pred = 1, u_cur = 2, t_cur = 1/2, n_steps = 2\<rparr>"

subsection \<open>Runs that show the rounding\<close>

text \<open>
  Two nodes, so no interior node, one variable, boundary values zero. With
  \<open>epsilon = 1\<close>, \<open>dx = 8\<close> and the eigenvalue \<open>1\<close> the timestep of line 102 is \<open>8\<close>.
\<close>

definition wide_grid :: Grid1D where
  "wide_grid = \<lparr>nx = 1, dx = 8, X = [0, 8]\<rparr>"

definition still_model :: Model where
  "still_model =
     \<lparr>numVars = 1, jacobian = (\<lambda>x. [[1]]), jacEigenvalues = (\<lambda>x. [1]),
      applyLeftBC = (\<lambda>x t h k up. [0]), applyRightBC = (\<lambda>x t h k up. [0])\<rparr>"

definition wide_stepper :: MacCormackStepper where
  "wide_stepper = \<lparr>grid = wide_grid, model = still_model, epsilon = 1\<rparr>"

definition flat_u0 :: ndarray where
  "flat_u0 = [[0], [0]]"

text \<open>The state at the loop test after lines 55 to 82, for \<open>t_init = - 4\<close>.\<close>

definition wide_first :: state where
  "wide_first =
     \<lparr>cells = (\<lambda>a. [])(0 := [[0], [0]], 1 := [[0], [0]], 2 := [[0], [0]], 3 := [[0], [0]]),
      fresh = 4, history = [(- 4, 3)], calls = [],
      u_prev = 0, u_pred = 1, u_cur = 2, t_cur = - 4, n_steps = 0\<rparr>"

text \<open>
  The float \<^verbatim>\<open>0.7\<close>, the float \<^verbatim>\<open>0.7 - (-4.0)\<close>, which is \<^verbatim>\<open>4.7\<close>, and the float
  \<^verbatim>\<open>-4.0 + 4.7\<close>, which is \<^verbatim>\<open>0.7000000000000002\<close>.
\<close>

definition t07 :: real where
  "t07 = 3152519739159347 / 4503599627370496"

definition d47 :: real where
  "d47 = 5291729562160333 / 1125899906842624"

definition t07_over :: real where
  "t07_over = 788129934789837 / 1125899906842624"

text \<open>The state after the only iteration of the run from \<open>- 4\<close> to \<^verbatim>\<open>0.7\<close>.\<close>

definition over_second :: state where
  "over_second =
     \<lparr>cells = (\<lambda>a. [])(0 := [[0], [0]], 1 := [[0], [0]], 2 := [[0], [0]], 3 := [[0], [0]],
                       4 := [[0], [0]]),
      fresh = 5, history = [(- 4, 3), (t07_over, 4)],
      calls = [LeftBC 0 t07_over 8 d47 [[0], [0]], RightBC 8 t07_over 8 d47 [[0], [0]]],
      u_prev = 0, u_pred = 1, u_cur = 2, t_cur = t07_over, n_steps = 1\<rparr>"

text \<open>The float \<^verbatim>\<open>0.5 + 2**-52\<close>, the next one above \<^verbatim>\<open>0.5\<close>, and \<^verbatim>\<open>2**-52\<close>.\<close>

definition t05_next :: real where
  "t05_next = 2251799813685249 / 4503599627370496"

definition ulp05 :: real where
  "ulp05 = 1 / 4503599627370496"

text \<open>The states after the first and the second iteration of the run from \<open>- 4\<close> to \<open>t05_next\<close>.\<close>

definition twice_second :: state where
  "twice_second =
     \<lparr>cells = (\<lambda>a. [])(0 := [[0], [0]], 1 := [[0], [0]], 2 := [[0], [0]], 3 := [[0], [0]],
                       4 := [[0], [0]]),
      fresh = 5, history = [(- 4, 3), (1/2, 4)],
      calls = [LeftBC 0 (1/2) 8 (9/2) [[0], [0]], RightBC 8 (1/2) 8 (9/2) [[0], [0]]],
      u_prev = 0, u_pred = 1, u_cur = 2, t_cur = 1/2, n_steps = 1\<rparr>"

definition twice_third :: state where
  "twice_third =
     \<lparr>cells = (\<lambda>a. [])(0 := [[0], [0]], 1 := [[0], [0]], 2 := [[0], [0]], 3 := [[0], [0]],
                       4 := [[0], [0]], 5 := [[0], [0]]),
      fresh = 6, history = [(- 4, 3), (1/2, 4), (t05_next, 5)],
      calls = [LeftBC 0 (1/2) 8 (9/2) [[0], [0]], RightBC 8 (1/2) 8 (9/2) [[0], [0]],
               LeftBC 0 t05_next 8 ulp05 [[0], [0]], RightBC 8 t05_next 8 ulp05 [[0], [0]]],
      u_prev = 0, u_pred = 1, u_cur = 2, t_cur = t05_next, n_steps = 2\<rparr>"








subsection \<open>Runs without the checks of the specification\<close>


text \<open>
  The three-node stepper with the zero matrix as Jacobian everywhere, and the state after
  the first iteration of its run from \<open>0\<close> to \<open>1/2\<close>.
\<close>

definition frozen_stepper :: MacCormackStepper where
  "frozen_stepper =
     \<lparr>grid = demo_grid, model = demo_model\<lparr>jacobian := (\<lambda>x. [[0]])\<rparr>, epsilon = 1/2\<rparr>"

definition frozen_second :: state where
  "frozen_second =
     \<lparr>cells = (\<lambda>a. [])(0 := [[0], [1], [4]], 1 := [[1/4], [1], [0]],
                       2 := [[1/4], [1], [1]], 3 := [[0], [1], [4]],
                       4 := [[1/4], [1], [1]]),
      fresh = 5, history = [(0, 3), (1/4, 4)],
      calls = [LeftBC 0 (1/4) (1/2) (1/4) [[0], [1], [4]],
               RightBC 1 (1/4) (1/2) (1/4) [[0], [1], [4]]],
      u_prev = 0, u_pred = 1, u_cur = 2, t_cur = 1/4, n_steps = 1\<rparr>"

text \<open>
  Two variables on two nodes, and an initial value of shape \<open>(1, 2)\<close>, one row short:
  the states of the run from \<open>0\<close> to \<open>8\<close> after lines 55 to 82 and after its only
  iteration.
\<close>

definition pair_model :: Model where
  "pair_model =
     \<lparr>numVars = 2, jacobian = (\<lambda>x. [[1, 0], [0, 1]]), jacEigenvalues = (\<lambda>x. [1, 1]),
      applyLeftBC = (\<lambda>x t h k up. [0, 0]), applyRightBC = (\<lambda>x t h k up. [0, 0])\<rparr>"

definition pair_stepper :: MacCormackStepper where
  "pair_stepper = \<lparr>grid = wide_grid, model = pair_model, epsilon = 1\<rparr>"

definition row_u0 :: ndarray where
  "row_u0 = [[5], [7]]"

definition pair_first :: state where
  "pair_first =
     \<lparr>cells = (\<lambda>a. [])(0 := [[0, 0], [0, 0]], 1 := [[0, 0], [0, 0]],
                       2 := [[5, 5], [7, 7]], 3 := [[5, 5], [7, 7]]),
      fresh = 4, history = [(0, 3)], calls = [],
      u_prev = 0, u_pred = 1, u_cur = 2, t_cur = 0, n_steps = 0\<rparr>"

definition pair_second :: state where
  "pair_second =
     \<lparr>cells = (\<lambda>a. [])(0 := [[5, 5], [7, 7]], 1 := [[0, 0], [0, 0]],
                       2 := [[0, 0], [0, 0]], 3 := [[5, 5], [7, 7]],
                       4 := [[0, 0], [0, 0]]),
      fresh = 5, history = [(0, 3), (8, 4)],
      calls = [LeftBC 0 8 8 8 [[5, 5], [7, 7]], RightBC 8 8 8 8 [[5, 5], [7, 7]]],
      u_prev = 0, u_pred = 1, u_cur = 2, t_cur = 8, n_steps = 1\<rparr>"

text \<open>
  The two-node stepper run in a module whose global \<^verbatim>\<open>grid\<close> is the three-node grid,
  with an initial value of three columns: the states of the run from \<open>0\<close> to \<open>8\<close>.
\<close>

definition long_u0 :: ndarray where
  "long_u0 = [[1], [2], [3]]"

definition slip_first :: state where
  "slip_first =
     \<lparr>cells = (\<lambda>a. [])(0 := [[0], [0], [0]], 1 := [[0], [0], [0]],
                       2 := [[1], [2], [3]], 3 := [[1], [2], [3]]),
      fresh = 4, history = [(0, 3)], calls = [],
      u_prev = 0, u_pred = 1, u_cur = 2, t_cur = 0, n_steps = 0\<rparr>"

definition slip_second :: state where
  "slip_second =
     \<lparr>cells = (\<lambda>a. [])(0 := [[1], [2], [3]], 1 := [[0], [0], [0]],
                       2 := [[0], [2], [0]], 3 := [[1], [2], [3]],
                       4 := [[0], [2], [0]]),
      fresh = 5, history = [(0, 3), (8, 4)],
      calls = [LeftBC 0 8 8 8 [[1], [2], [3]], RightBC 8 8 8 8 [[1], [2], [3]]],
      u_prev = 0, u_pred = 1, u_cur = 2, t_cur = 8, n_steps = 1\<rparr>"

section \<open>Auxiliary facts\<close>

subsection \<open>Arrays, assignments and the two loops\<close>

lemma bindE_Inr_iff: "bindE r f = Inr y \<longleftrightarrow> (\<exists>v. r = Inr v \<and> f v = Inr y)"
  by (cases r) (simp_all add: bindE_def)

lemma bindE_simps [simp]: "bindE (Inl e) f = Inl e" "bindE (Inr v) f = f v"
  by (simp_all add: bindE_def)

lemma fit_Some: "fit r v = Some w \<Longrightarrow> length w = r"
  by (auto simp: fit_def split: if_splits)

lemma setcol_Inr:
  assumes "setcol u i v = Inr u'"
  shows "i < length u" and "u' = u[i := u' ! i]" and "fit (length (u ! i)) v = Some (u' ! i)"
  using assms by (auto simp: setcol_def split: if_splits option.splits)

lemma setcol_lengths:
  assumes "setcol u i v = Inr u'"
  shows "map length u' = map length u"
  using assms
  by (auto simp: setcol_def map_update list_update_same_conv dest: fit_Some split: if_splits option.splits)

lemma broadcast2_fit:
  assumes "broadcast2 f a b = Inr v" and "fit (length a) v = Some w"
  shows "w = v"
  using assms by (auto simp: broadcast2_def fit_def split: if_splits)


lemma predictor_body_Inr:
  assumes "predictor_body self dt i s = Inr s'"
  shows "\<exists>v a. predictor_value self dt (cells s (u_prev s)) i = Inr v
           \<and> setcol (cells s (u_pred s)) i v = Inr a
           \<and> s' = s\<lparr>cells := (cells s)(u_pred s := a)\<rparr>"
  using assms by (auto simp: predictor_body_def bindE_Inr_iff)

lemma corrector_body_Inr:
  assumes "corrector_body self dt i s = Inr s'"
  shows "\<exists>v a. corrector_value self dt (cells s (u_prev s)) (cells s (u_pred s)) i = Inr v
           \<and> setcol (cells s (u_cur s)) i v = Inr a
           \<and> s' = s\<lparr>cells := (cells s)(u_cur s := a)\<rparr>"
  using assms by (auto simp: corrector_body_def bindE_Inr_iff)

lemma predictor_loop:
  assumes "for_each (predictor_body self dt) is s = Inr s'" and "u_prev s \<noteq> u_pred s"
  shows "s' = s\<lparr>cells := cells s'\<rparr>
       \<and> (\<forall>a. a \<noteq> u_pred s \<longrightarrow> cells s' a = cells s a)
       \<and> map length (cells s' (u_pred s)) = map length (cells s (u_pred s))
       \<and> (\<forall>j. j \<notin> set is \<longrightarrow> cells s' (u_pred s) ! j = cells s (u_pred s) ! j)
       \<and> (\<forall>i\<in>set is. \<exists>v. predictor_value self dt (cells s (u_prev s)) i = Inr v
              \<and> fit (length (cells s (u_pred s) ! i)) v = Some (cells s' (u_pred s) ! i))"
  using assms
proof (induction "is" arbitrary: s)
  case Nil
  then show ?case by simp
next
  case (Cons i "is")
  from Cons.prems(1) obtain s1 where b: "predictor_body self dt i s = Inr s1"
    and r: "for_each (predictor_body self dt) is s1 = Inr s'"
    by (auto split: sum.splits)
  from predictor_body_Inr[OF b] obtain v a where
    v: "predictor_value self dt (cells s (u_prev s)) i = Inr v"
    and a: "setcol (cells s (u_pred s)) i v = Inr a"
    and s1: "s1 = s\<lparr>cells := (cells s)(u_pred s := a)\<rparr>" by blast
  have refs: "u_prev s1 = u_prev s" "u_pred s1 = u_pred s" by (simp_all add: s1)
  have c1: "cells s1 (u_pred s) = a" "cells s1 (u_prev s) = cells s (u_prev s)"
    using Cons.prems(2) by (simp_all add: s1)
  have ne: "u_prev s1 \<noteq> u_pred s1" using Cons.prems(2) by (simp add: refs)
  note IH = Cons.IH[OF r ne, unfolded refs c1]
  have la: "map length a = map length (cells s (u_pred s))" by (rule setcol_lengths[OF a])
  have ai: "fit (length (cells s (u_pred s) ! i)) v = Some (a ! i)" by (rule setcol_Inr(3)[OF a])
  have aj: "\<And>j. j \<noteq> i \<Longrightarrow> a ! j = cells s (u_pred s) ! j"
    using setcol_Inr(2)[OF a] by (metis nth_list_update_neq)
  have il: "i < length (cells s (u_pred s))" by (rule setcol_Inr(1)[OF a])
  have len: "length (a ! j) = length (cells s (u_pred s) ! j)" for j
    using aj[of j] fit_Some[OF ai] by (cases "j = i") auto
  show ?case
  proof (intro conjI allI impI ballI)
    show "s' = s\<lparr>cells := cells s'\<rparr>"
      using IH s1 by (metis (no_types) state.surjective state.update_convs(1))
    show "cells s' b = cells s b" if "b \<noteq> u_pred s" for b
      using IH that by (simp add: s1)
    show "map length (cells s' (u_pred s)) = map length (cells s (u_pred s))"
      using IH la by simp
    show "cells s' (u_pred s) ! j = cells s (u_pred s) ! j" if "j \<notin> set (i # is)" for j
      using IH that aj by simp
    show "\<exists>v. predictor_value self dt (cells s (u_prev s)) k = Inr v
              \<and> fit (length (cells s (u_pred s) ! k)) v = Some (cells s' (u_pred s) ! k)"
      if "k \<in> set (i # is)" for k
    proof (cases "k \<in> set is")
      case True
      with IH len show ?thesis by auto
    next
      case False
      with that have "k = i" by simp
      moreover from False IH have "cells s' (u_pred s) ! k = a ! k" by blast
      ultimately show ?thesis using v ai by auto
    qed
  qed
qed


lemma corrector_loop:
  assumes "for_each (corrector_body self dt) is s = Inr s'"
    and "u_prev s \<noteq> u_cur s" and "u_pred s \<noteq> u_cur s"
  shows "s' = s\<lparr>cells := cells s'\<rparr>
       \<and> (\<forall>a. a \<noteq> u_cur s \<longrightarrow> cells s' a = cells s a)
       \<and> map length (cells s' (u_cur s)) = map length (cells s (u_cur s))
       \<and> (\<forall>j. j \<notin> set is \<longrightarrow> cells s' (u_cur s) ! j = cells s (u_cur s) ! j)
       \<and> (\<forall>i\<in>set is. \<exists>v. corrector_value self dt (cells s (u_prev s)) (cells s (u_pred s)) i = Inr v
              \<and> fit (length (cells s (u_cur s) ! i)) v = Some (cells s' (u_cur s) ! i))"
  using assms
proof (induction "is" arbitrary: s)
  case Nil
  then show ?case by simp
next
  case (Cons i "is")
  from Cons.prems(1) obtain s1 where b: "corrector_body self dt i s = Inr s1"
    and r: "for_each (corrector_body self dt) is s1 = Inr s'"
    by (auto split: sum.splits)
  from corrector_body_Inr[OF b] obtain v a where
    v: "corrector_value self dt (cells s (u_prev s)) (cells s (u_pred s)) i = Inr v"
    and a: "setcol (cells s (u_cur s)) i v = Inr a"
    and s1: "s1 = s\<lparr>cells := (cells s)(u_cur s := a)\<rparr>" by blast
  have refs: "u_prev s1 = u_prev s" "u_pred s1 = u_pred s" "u_cur s1 = u_cur s"
    by (simp_all add: s1)
  have c1: "cells s1 (u_cur s) = a" "cells s1 (u_prev s) = cells s (u_prev s)"
    "cells s1 (u_pred s) = cells s (u_pred s)"
    using Cons.prems(2,3) by (simp_all add: s1)
  have ne: "u_prev s1 \<noteq> u_cur s1" "u_pred s1 \<noteq> u_cur s1"
    using Cons.prems(2,3) by (simp_all add: refs)
  note IH = Cons.IH[OF r ne, unfolded refs c1]
  have la: "map length a = map length (cells s (u_cur s))" by (rule setcol_lengths[OF a])
  have ai: "fit (length (cells s (u_cur s) ! i)) v = Some (a ! i)" by (rule setcol_Inr(3)[OF a])
  have aj: "\<And>j. j \<noteq> i \<Longrightarrow> a ! j = cells s (u_cur s) ! j"
    using setcol_Inr(2)[OF a] by (metis nth_list_update_neq)
  have len: "length (a ! j) = length (cells s (u_cur s) ! j)" for j
    using aj[of j] fit_Some[OF ai] by (cases "j = i") auto
  show ?case
  proof (intro conjI allI impI ballI)
    show "s' = s\<lparr>cells := cells s'\<rparr>"
      using IH s1 by (metis (no_types) state.surjective state.update_convs(1))
    show "cells s' b = cells s b" if "b \<noteq> u_cur s" for b
      using IH that by (simp add: s1)
    show "map length (cells s' (u_cur s)) = map length (cells s (u_cur s))"
      using IH la by simp
    show "cells s' (u_cur s) ! j = cells s (u_cur s) ! j" if "j \<notin> set (i # is)" for j
      using IH that aj by simp
    show "\<exists>v. corrector_value self dt (cells s (u_prev s)) (cells s (u_pred s)) k = Inr v
              \<and> fit (length (cells s (u_cur s) ! k)) v = Some (cells s' (u_cur s) ! k)"
      if "k \<in> set (i # is)" for k
    proof (cases "k \<in> set is")
      case True
      with IH len show ?thesis by auto
    next
      case False
      with that have "k = i" by simp
      moreover from False IH have "cells s' (u_cur s) ! k = a ! k" by blast
      ultimately show ?thesis using v ai by auto
    qed
  qed
qed

lemma left_bc_Inr:
  assumes "left_bc self t_step dt s = Inr s'" and "u_pred s \<noteq> u_cur s"
  shows "\<exists>w w'. X (grid self) \<noteq> []
    \<and> fit (length (cells s (u_cur s) ! 0))
          (applyLeftBC (model self) (X (grid self) ! 0) t_step (dx (grid self)) dt
             (cells s (u_prev s))) = Some w
    \<and> fit (length (cells s (u_pred s) ! 0)) w = Some w'
    \<and> cells s (u_cur s) \<noteq> [] \<and> cells s (u_pred s) \<noteq> []
    \<and> s' = s\<lparr>cells := (cells s)(u_cur s := (cells s (u_cur s))[0 := w],
                               u_pred s := (cells s (u_pred s))[0 := w']),
             calls := calls s @ [LeftBC (X (grid self) ! 0) t_step (dx (grid self)) dt
                                   (cells s (u_prev s))]\<rparr>"
  using assms
  by (auto simp: left_bc_def Let_def bindE_Inr_iff setcol_def
           split: if_splits option.splits)

lemma right_bc_Inr:
  assumes "right_bc self t_step dt s = Inr s'"
  shows "\<exists>w. X (grid self) \<noteq> []
    \<and> fit (length (last (cells s (u_cur s))))
          (applyRightBC (model self) (last (X (grid self))) t_step (dx (grid self)) dt
             (cells s (u_prev s))) = Some w
    \<and> cells s (u_cur s) \<noteq> []
    \<and> s' = s\<lparr>cells := (cells s)(u_cur s :=
                 (cells s (u_cur s))[length (cells s (u_cur s)) - 1 := w]),
             calls := calls s @ [RightBC (last (X (grid self))) t_step (dx (grid self)) dt
                                   (cells s (u_prev s))]\<rparr>"
proof -
  from assms have ne: "cells s (u_cur s) \<noteq> []" and xs: "X (grid self) \<noteq> []"
    by (auto simp: right_bc_def Let_def bindE_Inr_iff setcol_def split: if_splits)
  show ?thesis
    using assms ne
    by (auto simp: right_bc_def Let_def bindE_Inr_iff setcol_def last_conv_nth[OF ne]
             split: if_splits option.splits)
qed


lemma has_shape_length: "has_shape r c a \<Longrightarrow> length a = c"
  by (metis has_shape_def length_map length_replicate)

lemma has_shape_nth: "has_shape r c a \<Longrightarrow> j < c \<Longrightarrow> length (a ! j) = r"
  by (metis has_shape_def has_shape_length nth_map nth_replicate)

lemma has_shape_cong: "map length a' = map length a \<Longrightarrow> has_shape r c a' = has_shape r c a"
  by (simp add: has_shape_def)

lemma has_shape_update:
  assumes "has_shape r c a" and "length w = r"
  shows "has_shape r c (a[j := w])"
proof (cases "j < length a")
  case True
  with assms have "map length a ! j = length w"
    by (metis has_shape_length has_shape_nth nth_map)
  with True have "(map length a)[j := length w] = map length a"
    by (simp add: list_update_same_conv)
  with assms(1) show ?thesis by (simp add: has_shape_def map_update)
next
  case False
  then have "a[j := w] = a" by (simp add: list_update_beyond)
  with assms(1) show ?thesis by simp
qed

lemma has_shape_zeros: "has_shape r c (zeros r c)"
  by (simp add: has_shape_def zeros_def)

lemma has_shape_is_array: "has_shape r c a \<Longrightarrow> 0 < c \<Longrightarrow> is_array a \<and> length (hd a) = r"
proof -
  assume h: "has_shape r c a" and c: "0 < c"
  then have ne: "a \<noteq> []" using has_shape_length by fastforce
  have "\<forall>col\<in>set a. length col = r"
    using h by (metis has_shape_length has_shape_nth in_set_conv_nth)
  moreover have "length (hd a) = r"
    using ne calculation by simp
  ultimately show ?thesis using ne by (simp add: is_array_def list_all_iff)
qed

lemma copyto_same_shape:
  assumes "has_shape r c dst" and "has_shape r c src" and "0 < c"
  shows "copyto dst src = Inr src"
proof -
  from has_shape_is_array[OF assms(1,3)] have d: "length (hd dst) = r" by simp
  from has_shape_is_array[OF assms(2,3)] have s: "is_array src" "length (hd src) = r"
    by simp_all
  have l: "length dst = c" "length src = c" using assms has_shape_length by blast+
  have "map (\<lambda>j. src ! j) [0..<c] = src" using l(2) map_nth by blast
  then show ?thesis by (simp add: copyto_def Let_def d s l cong: map_cong)
qed

lemma is_array_nth: "is_array a \<Longrightarrow> j < length a \<Longrightarrow> length (a ! j) = length (hd a)"
  by (simp add: is_array_def list_all_length)

lemma copyto_has_shape:
  assumes "copyto dst src = Inr a" and "has_shape r c dst" and "0 < c"
  shows "has_shape r c a"
proof -
  from has_shape_is_array[OF assms(2,3)] have d: "length (hd dst) = r" by simp
  have l: "length dst = c" using assms has_shape_length by blast
  define f where "f = (\<lambda>j. let col = (if length src = c then src ! j else src ! 0)
                          in if length (hd src) = r then col else replicate r (col ! 0))"
  have cond: "is_array src \<and> (length src = c \<or> length src = 1)
      \<and> (length (hd src) = r \<or> length (hd src) = 1)"
  proof (rule ccontr)
    assume "\<not> ?thesis"
    then have "copyto dst src = Inl ValueError"
      unfolding copyto_def Let_def d l by (simp only: simp_thms if_False)
    with assms(1) show False by simp
  qed
  then have "copyto dst src = Inr (map f [0..<c])"
    unfolding copyto_def Let_def d l f_def by (simp only: simp_thms if_True)
  with assms(1) have a: "a = map f [0..<c]" by simp
  from cond have arr: "is_array src" by blast
  then have ne: "0 < length src" by (simp add: is_array_def)
  have "length (f j) = r" if "j < c" for j
  proof (cases "length (hd src) = r")
    case True
    show ?thesis
    proof (cases "length src = c")
      case True
      with that is_array_nth[OF arr, of j] \<open>length (hd src) = r\<close> show ?thesis
        by (simp add: f_def)
    next
      case False
      with is_array_nth[OF arr ne] \<open>length (hd src) = r\<close> show ?thesis
        by (simp add: f_def)
    qed
  next
    case False
    then show ?thesis by (simp add: f_def Let_def)
  qed
  then have "map length a = map (\<lambda>j. r) [0..<c]"
    unfolding a by simp
  then show ?thesis by (simp add: has_shape_def map_replicate_const)
qed

lemma predictor_value_iff:
  "predictor_value self dt up i = Inr v \<longleftrightarrow>
     (i + 1 < length up \<and> i < length (X (grid self)) \<and>
      (\<exists>d Jd. subtract (up ! (i + 1)) (up ! i) = Inr d
         \<and> matmul (jacobian (model self) (X (grid self) ! i)) (divide d (dx (grid self))) = Inr Jd
         \<and> subtract (up ! i) (scale dt Jd) = Inr v))"
  by (auto simp: predictor_value_def Let_def bindE_Inr_iff)

lemma corrector_value_iff:
  "corrector_value self dt up upd i = Inr v \<longleftrightarrow>
     (i < length upd \<and> i < length (X (grid self)) \<and> i < length up \<and>
      (\<exists>d Jd sm. subtract (upd ! i) (upd ! (i - 1)) = Inr d
         \<and> matmul (jacobian (model self) (X (grid self) ! i)) (divide d (dx (grid self))) = Inr Jd
         \<and> add (upd ! i) (up ! i) = Inr sm
         \<and> subtract (scale 0.5 sm) (scale (0.5 * dt) Jd) = Inr v))"
  by (auto simp: corrector_value_def Let_def bindE_Inr_iff)

lemma predictor_value_fit:
  assumes "predictor_value self dt up i = Inr v" and "fit (length (up ! i)) v = Some w"
  shows "w = v"
  using assms broadcast2_fit unfolding predictor_value_iff subtract_def by blast

lemma corrector_value_fit:
  assumes "corrector_value self dt up upd i = Inr v" and "length (upd ! i) = length (up ! i)"
    and "fit (length (up ! i)) v = Some w"
  shows "w = v"
proof -
  from assms(1) obtain Jd sm where sm: "add (upd ! i) (up ! i) = Inr sm"
    and v: "subtract (scale 0.5 sm) (scale (0.5 * dt) Jd) = Inr v"
    unfolding corrector_value_iff by blast
  from sm assms(2) have "length sm = length (up ! i)"
    by (auto simp: add_def broadcast2_def split: if_splits)
  then have "length (scale 0.5 sm) = length (up ! i)" by (simp add: scale_def)
  with v assms(3) show ?thesis using broadcast2_fit unfolding subtract_def by metis
qed

subsection \<open>The effect of one iteration\<close>

lemma fit_same: "length w = r \<Longrightarrow> fit r w = Some w"
  by (simp add: fit_def)

lemma step_to_corrector_Inr:
  assumes ok: "buffers_ok r c s" and st: "step_to_corrector self t_final s = Inr (dt, sc)"
  shows "step_dt self t_final (t_cur s) = Inr dt
    \<and> u_prev sc = u_prev s \<and> u_pred sc = u_pred s \<and> u_cur sc = u_cur s
    \<and> fresh sc = fresh s \<and> history sc = history s \<and> t_cur sc = t_cur s
    \<and> n_steps sc = n_steps s + 1
    \<and> X (grid self) \<noteq> []
    \<and> calls sc = calls s @ [LeftBC (X (grid self) ! 0) (fadd (t_cur s) dt) (dx (grid self)) dt
                               (cells s (u_cur s))]
    \<and> cells sc (u_prev s) = cells s (u_cur s)
    \<and> (\<forall>a. a \<noteq> u_prev s \<and> a \<noteq> u_pred s \<and> a \<noteq> u_cur s \<longrightarrow> cells sc a = cells s a)
    \<and> fit r (applyLeftBC (model self) (X (grid self) ! 0) (fadd (t_cur s) dt) (dx (grid self)) dt
               (cells s (u_cur s))) = Some (cells sc (u_cur s) ! 0)
    \<and> cells sc (u_pred s) ! 0 = cells sc (u_cur s) ! 0
    \<and> (\<forall>j. 0 < j \<longrightarrow> cells sc (u_cur s) ! j = cells s (u_cur s) ! j)
    \<and> (\<forall>i. 1 \<le> i \<and> i < nx (grid self) \<longrightarrow>
          predictor_value self dt (cells s (u_cur s)) i = Inr (cells sc (u_pred s) ! i))
    \<and> (\<forall>j. 0 < j \<and> \<not> j < nx (grid self) \<longrightarrow> cells sc (u_pred s) ! j = cells s (u_pred s) ! j)
    \<and> buffers_ok r c sc"
proof -
  let ?P = "u_prev s" and ?Q = "u_pred s" and ?C = "u_cur s"
  from ok have d: "?P \<noteq> ?Q" "?P \<noteq> ?C" "?Q \<noteq> ?C"
    and fr: "?P < fresh s" "?Q < fresh s" "?C < fresh s" and c: "0 < c"
    and hp: "has_shape r c (cells s ?P)" and hq: "has_shape r c (cells s ?Q)"
    and hc: "has_shape r c (cells s ?C)"
    by (simp_all add: buffers_ok_def)
  have cp: "copyto (cells s ?P) (cells s ?C) = Inr (cells s ?C)"
    by (rule copyto_same_shape[OF hp hc c])
  define s2 where "s2 = s\<lparr>n_steps := n_steps s + 1, cells := (cells s)(?P := cells s ?C)\<rparr>"
  from st cp obtain s3 where dt: "step_dt self t_final (t_cur s) = Inr dt"
    and pl: "for_each (predictor_body self dt) [1..<nx (grid self)] s2 = Inr s3"
    and lb: "left_bc self (fadd (t_cur s3) dt) dt s3 = Inr sc"
    by (auto simp: step_to_corrector_def Let_def bindE_Inr_iff s2_def)
  have s2: "u_prev s2 = ?P" "u_pred s2 = ?Q" "u_cur s2 = ?C" "cells s2 ?P = cells s ?C"
    "cells s2 ?Q = cells s ?Q" "cells s2 ?C = cells s ?C" "t_cur s2 = t_cur s"
    using d by (simp_all add: s2_def)
  have ne2: "u_prev s2 \<noteq> u_pred s2" using d by (simp add: s2)
  note PL = predictor_loop[OF pl ne2, unfolded s2]
  from PL have s3eq: "s3 = s2\<lparr>cells := cells s3\<rparr>" by blast
  have s3: "u_prev s3 = ?P" "u_pred s3 = ?Q" "u_cur s3 = ?C" "t_cur s3 = t_cur s"
    "fresh s3 = fresh s" "history s3 = history s" "n_steps s3 = n_steps s + 1"
    "calls s3 = calls s"
    by (subst s3eq, simp add: s2_def)+
  have c3: "cells s3 ?P = cells s ?C" "cells s3 ?C = cells s ?C"
    using PL d s2 by auto
  have c3o: "\<And>a. a \<noteq> ?P \<Longrightarrow> a \<noteq> ?Q \<Longrightarrow> cells s3 a = cells s a"
    using PL by (simp add: s2_def)
  have hq3: "has_shape r c (cells s3 ?Q)"
    using PL hq has_shape_cong by blast
  have ne3: "u_pred s3 \<noteq> u_cur s3" using d by (simp add: s3)
  from left_bc_Inr[OF lb ne3, unfolded s3 c3] obtain w w' where
    xne: "X (grid self) \<noteq> []"
    and w: "fit (length (cells s ?C ! 0))
          (applyLeftBC (model self) (X (grid self) ! 0) (fadd (t_cur s) dt) (dx (grid self)) dt
             (cells s ?C)) = Some w"
    and w': "fit (length (cells s3 ?Q ! 0)) w = Some w'"
    and sc: "sc = s3\<lparr>cells := (cells s3)(?C := (cells s ?C)[0 := w],
                               ?Q := (cells s3 ?Q)[0 := w']),
             calls := calls s @ [LeftBC (X (grid self) ! 0) (fadd (t_cur s) dt) (dx (grid self)) dt
                                   (cells s ?C)]\<rparr>"
    by blast
  have l0: "length (cells s ?C ! 0) = r" "length (cells s3 ?Q ! 0) = r"
    using has_shape_nth[OF hc c] has_shape_nth[OF hq3 c] by simp_all
  have lw: "length w = r" using fit_Some[OF w] l0 by simp
  have ww: "w' = w" using w' fit_same[OF lw] l0 by simp
  have lc: "length (cells s ?C) = c" "length (cells s3 ?Q) = c"
    using has_shape_length hc hq3 by blast+
  have cc: "cells sc ?C = (cells s ?C)[0 := w]" "cells sc ?Q = (cells s3 ?Q)[0 := w]"
    "cells sc ?P = cells s ?C"
    using d by (simp_all add: sc ww c3)
  have pv: "predictor_value self dt (cells s ?C) i = Inr (cells sc ?Q ! i)"
    if "1 \<le> i" "i < nx (grid self)" for i
  proof -
    from that have "i \<in> set [1..<nx (grid self)]" by simp
    with PL obtain v where v: "predictor_value self dt (cells s ?C) i = Inr v"
      and f: "fit (length (cells s ?Q ! i)) v = Some (cells s3 ?Q ! i)" by blast
    from v have il: "i + 1 < length (cells s ?C)" by (simp add: predictor_value_iff)
    then have ic: "i < c" using lc by simp
    have "length (cells s ?Q ! i) = length (cells s ?C ! i)"
      using has_shape_nth[OF hq ic] has_shape_nth[OF hc ic] by simp
    with f predictor_value_fit[OF v] have "cells s3 ?Q ! i = v" by simp
    with v that show ?thesis by (simp add: cc)
  qed
  have keep: "cells sc ?Q ! j = cells s ?Q ! j" if "0 < j" "\<not> j < nx (grid self)" for j
  proof -
    from that have "j \<notin> set [1..<nx (grid self)]" by simp
    with PL have "cells s3 ?Q ! j = cells s ?Q ! j" by blast
    with that show ?thesis by (simp add: cc)
  qed
  have okc: "buffers_ok r c sc"
    unfolding buffers_ok_def
    using d fr c hc hq3 lw
    by (simp add: sc s3 ww has_shape_update c3)
  have f: "u_prev sc = ?P" "u_pred sc = ?Q" "u_cur sc = ?C" "fresh sc = fresh s"
    "history sc = history s" "t_cur sc = t_cur s" "n_steps sc = n_steps s + 1"
    "calls sc = calls s @ [LeftBC (X (grid self) ! 0) (fadd (t_cur s) dt) (dx (grid self)) dt
                               (cells s ?C)]"
    by (simp_all add: sc s3)
  have oth: "cells sc a = cells s a" if "a \<noteq> ?P" "a \<noteq> ?Q" "a \<noteq> ?C" for a
    using that by (simp add: sc c3o)
  have z: "cells sc ?C ! 0 = w" "cells sc ?Q ! 0 = w"
    using lc c by (simp_all add: cc)
  have nz: "cells sc ?C ! j = cells s ?C ! j" if "0 < j" for j
    using that by (simp add: cc)
  from w l0 z have fw: "fit r (applyLeftBC (model self) (X (grid self) ! 0) (fadd (t_cur s) dt)
      (dx (grid self)) dt (cells s ?C)) = Some (cells sc ?C ! 0)" by simp
  show ?thesis
    using dt xne f cc(3) oth fw z nz pv keep okc by simp
qed


lemma step_Inr:
  assumes ok: "buffers_ok r c s" and st: "step self t_final s = Inr s'"
  shows "\<exists>dt sc. step_to_corrector self t_final s = Inr (dt, sc)
    \<and> u_prev s' = u_prev s \<and> u_pred s' = u_pred s \<and> u_cur s' = u_cur s
    \<and> fresh s' = fresh s + 1 \<and> history s' = history s @ [(fadd (t_cur s) dt, fresh s)]
    \<and> t_cur s' = fadd (t_cur s) dt \<and> n_steps s' = n_steps s + 1
    \<and> calls s' = calls sc @ [RightBC (last (X (grid self))) (fadd (t_cur s) dt) (dx (grid self)) dt
                               (cells s (u_cur s))]
    \<and> cells s' (u_prev s) = cells s (u_cur s)
    \<and> cells s' (u_pred s) = cells sc (u_pred s)
    \<and> cells s' (fresh s) = cells s' (u_cur s)
    \<and> (\<forall>a. a \<noteq> u_prev s \<and> a \<noteq> u_pred s \<and> a \<noteq> u_cur s \<and> a \<noteq> fresh s
           \<longrightarrow> cells s' a = cells s a)
    \<and> (\<forall>i. 1 \<le> i \<and> i < nx (grid self) \<longrightarrow>
          corrector_value self dt (cells s (u_cur s)) (cells sc (u_pred s)) i
            = Inr (cells s' (u_cur s) ! i))
    \<and> fit r (applyRightBC (model self) (last (X (grid self))) (fadd (t_cur s) dt) (dx (grid self)) dt
               (cells s (u_cur s))) = Some (last (cells s' (u_cur s)))
    \<and> (\<forall>j. j + 1 < c \<and> \<not> (1 \<le> j \<and> j < nx (grid self)) \<longrightarrow>
          cells s' (u_cur s) ! j = cells sc (u_cur s) ! j)
    \<and> buffers_ok r c s'"
proof -
  let ?P = "u_prev s" and ?Q = "u_pred s" and ?C = "u_cur s"
  from st obtain dt sc s5 s6 where tc: "step_to_corrector self t_final s = Inr (dt, sc)"
    and cl: "for_each (corrector_body self dt) [1..<nx (grid self)] sc = Inr s5"
    and rb: "right_bc self (fadd (t_cur s5) dt) dt s5 = Inr s6"
    and s': "s' = record_history (s6\<lparr>t_cur := fadd (t_cur s6) dt\<rparr>)"
    by (auto simp: step_def bindE_Inr_iff)
  note TC = step_to_corrector_Inr[OF ok tc]
  from TC have okc: "buffers_ok r c sc" by blast
  from TC have f: "u_prev sc = ?P" "u_pred sc = ?Q" "u_cur sc = ?C" "fresh sc = fresh s"
    "history sc = history s" "t_cur sc = t_cur s" "n_steps sc = n_steps s + 1"
    and cp: "cells sc ?P = cells s ?C"
    and oth: "\<And>a. a \<noteq> ?P \<Longrightarrow> a \<noteq> ?Q \<Longrightarrow> a \<noteq> ?C \<Longrightarrow> cells sc a = cells s a"
    and pv: "\<And>i. 1 \<le> i \<Longrightarrow> i < nx (grid self) \<Longrightarrow>
          predictor_value self dt (cells s ?C) i = Inr (cells sc ?Q ! i)"
    by simp_all
  from okc have d: "?P \<noteq> ?Q" "?P \<noteq> ?C" "?Q \<noteq> ?C"
    and fr: "?P < fresh s" "?Q < fresh s" "?C < fresh s" and c: "0 < c"
    and hp: "has_shape r c (cells sc ?P)" and hq: "has_shape r c (cells sc ?Q)"
    and hc: "has_shape r c (cells sc ?C)"
    by (simp_all add: buffers_ok_def f)
  have ne: "u_prev sc \<noteq> u_cur sc" "u_pred sc \<noteq> u_cur sc" using d by (simp_all add: f)
  note CL = corrector_loop[OF cl ne, unfolded f cp]
  from CL have s5eq: "s5 = sc\<lparr>cells := cells s5\<rparr>" by blast
  have f5: "u_prev s5 = ?P" "u_pred s5 = ?Q" "u_cur s5 = ?C" "fresh s5 = fresh s"
    "history s5 = history s" "t_cur s5 = t_cur s" "n_steps s5 = n_steps s + 1"
    "calls s5 = calls sc"
    by (subst s5eq, simp add: f)+
  have c5: "cells s5 ?P = cells s ?C" "cells s5 ?Q = cells sc ?Q"
    using CL d cp by auto
  have c5o: "\<And>a. a \<noteq> ?C \<Longrightarrow> cells s5 a = cells sc a"
    using CL by simp
  have hc5: "has_shape r c (cells s5 ?C)"
    using CL hc has_shape_cong by blast
  have lc5: "length (cells s5 ?C) = c" using hc5 has_shape_length by blast
  from right_bc_Inr[OF rb, unfolded f5 c5] obtain w where
    w: "fit (length (last (cells s5 ?C)))
          (applyRightBC (model self) (last (X (grid self))) (fadd (t_cur s) dt) (dx (grid self)) dt
             (cells s ?C)) = Some w"
    and s6: "s6 = s5\<lparr>cells := (cells s5)(?C := (cells s5 ?C)[length (cells s5 ?C) - 1 := w]),
             calls := calls sc @ [RightBC (last (X (grid self))) (fadd (t_cur s) dt) (dx (grid self)) dt
                                   (cells s ?C)]\<rparr>"
    by blast
  have ne5: "cells s5 ?C \<noteq> []" using lc5 c by auto
  have "length (last (cells s5 ?C)) = r"
    using has_shape_nth[OF hc5, of "c - 1"] c lc5 by (simp add: last_conv_nth[OF ne5])
  with w have w2: "fit r (applyRightBC (model self) (last (X (grid self))) (fadd (t_cur s) dt)
      (dx (grid self)) dt (cells s ?C)) = Some w" and lw: "length w = r"
    using fit_Some by auto
  define uc where "uc = (cells s5 ?C)[c - 1 := w]"
  have huc: "has_shape r c uc" unfolding uc_def by (rule has_shape_update[OF hc5 lw])
  have luc: "last uc = w" unfolding uc_def using lc5 c
    by (metis diff_less last_list_update length_greater_0_conv list_update_nonempty
        One_nat_def zero_less_one ne5)
  have cs': "cells s' ?C = uc" "cells s' ?P = cells s ?C" "cells s' ?Q = cells sc ?Q"
    "cells s' (fresh s) = uc"
    using d fr by (simp_all add: s' s6 record_history_def f5 c5 uc_def lc5)
  have fs': "u_prev s' = ?P" "u_pred s' = ?Q" "u_cur s' = ?C" "fresh s' = fresh s + 1"
    "history s' = history s @ [(fadd (t_cur s) dt, fresh s)]" "t_cur s' = fadd (t_cur s) dt"
    "n_steps s' = n_steps s + 1"
    "calls s' = calls sc @ [RightBC (last (X (grid self))) (fadd (t_cur s) dt) (dx (grid self)) dt
                               (cells s ?C)]"
    by (simp_all add: s' s6 record_history_def f5)
  have oth': "cells s' a = cells s a"
    if "a \<noteq> ?P" "a \<noteq> ?Q" "a \<noteq> ?C" "a \<noteq> fresh s" for a
    using that by (simp add: s' s6 record_history_def f5 c5o oth)
  have cv: "corrector_value self dt (cells s ?C) (cells sc ?Q) i = Inr (cells s' ?C ! i)"
    if "1 \<le> i" "i < nx (grid self)" for i
  proof -
    from that have "i \<in> set [1..<nx (grid self)]" by simp
    with CL obtain v where v: "corrector_value self dt (cells s ?C) (cells sc ?Q) i = Inr v"
      and fv: "fit (length (cells sc ?C ! i)) v = Some (cells s5 ?C ! i)" by blast
    from pv[OF that] have "i + 1 < length (cells s ?C)" by (simp add: predictor_value_iff)
    moreover have "length (cells s ?C) = c" using hp cp has_shape_length by metis
    ultimately have ic: "i + 1 < c" by simp
    then have ic': "i < c" by simp
    have l1: "length (cells sc ?C ! i) = r" by (rule has_shape_nth[OF hc ic'])
    have l2: "length (cells sc ?Q ! i) = r" by (rule has_shape_nth[OF hq ic'])
    have l3: "length (cells s ?C ! i) = r" using has_shape_nth[OF hp ic'] cp by simp
    from corrector_value_fit[OF v, of "cells s5 ?C ! i"] fv l1 l2 l3
    have "cells s5 ?C ! i = v" by simp
    moreover have "uc ! i = cells s5 ?C ! i" unfolding uc_def using ic by simp
    ultimately show ?thesis using v by (simp add: cs')
  qed
  have keep: "cells s' ?C ! j = cells sc ?C ! j"
    if "j + 1 < c" "\<not> (1 \<le> j \<and> j < nx (grid self))" for j
  proof -
    from that have "j \<notin> set [1..<nx (grid self)]" by auto
    with CL have "cells s5 ?C ! j = cells sc ?C ! j" by blast
    moreover have "uc ! j = cells s5 ?C ! j" unfolding uc_def using that by simp
    ultimately show ?thesis by (simp add: cs')
  qed
  have ok': "buffers_ok r c s'"
    unfolding buffers_ok_def using d fr c hq huc hp cp
    by (simp add: fs' cs')
  show ?thesis
    apply (rule exI[of _ dt], rule exI[of _ sc])
    using tc fs' cs' oth' cv keep ok' w2 luc by simp
qed

subsection \<open>Every state of the loop has well-formed buffers\<close>

lemma run_init_Inr:
  assumes "run_init genv self t_init u_init s0 = Inr s"
  shows "\<exists>g. genv = Some g
    \<and> buffers_ok (numVars (model self)) (nx g + 1) s
    \<and> u_prev s = fresh s0 \<and> u_pred s = fresh s0 + 1 \<and> u_cur s = fresh s0 + 2
    \<and> fresh s = fresh s0 + 4
    \<and> history s = [(t_init, fresh s0 + 3)]
    \<and> t_cur s = t_init \<and> n_steps s = 0 \<and> calls s = calls s0
    \<and> cells s (fresh s0 + 3) = cells s (u_cur s)
    \<and> copyto (zeros (numVars (model self)) (nx g + 1)) u_init = Inr (cells s (u_cur s))
    \<and> (\<forall>a. a < fresh s0 \<longrightarrow> cells s a = cells s0 a)"
proof -
  from assms obtain g where g: "genv = Some g"
    by (cases genv) (simp_all add: run_init_def)
  let ?z = "zeros (numVars (model self)) (nx g + 1)"
  from assms g have "\<exists>c. copyto ?z u_init = Inr c \<and> s = record_history
              (s0\<lparr>fresh := fresh s0 + 3, u_prev := fresh s0, u_pred := fresh s0 + 1,
                  u_cur := fresh s0 + 2,
                  cells := (cells s0)(fresh s0 := ?z, fresh s0 + 1 := ?z, fresh s0 + 2 := c),
                  t_cur := t_init, n_steps := 0, history := []\<rparr>)"
    by (auto simp: run_init_def Let_def bindE_Inr_iff)
  then obtain c where c: "copyto ?z u_init = Inr c"
    and s: "s = record_history
              (s0\<lparr>fresh := fresh s0 + 3, u_prev := fresh s0, u_pred := fresh s0 + 1,
                  u_cur := fresh s0 + 2,
                  cells := (cells s0)(fresh s0 := ?z, fresh s0 + 1 := ?z, fresh s0 + 2 := c),
                  t_cur := t_init, n_steps := 0, history := []\<rparr>)"
    by blast
  have hz: "has_shape (numVars (model self)) (nx g + 1) ?z" by (rule has_shape_zeros)
  have hc: "has_shape (numVars (model self)) (nx g + 1) c"
    by (rule copyto_has_shape[OF c hz]) simp
  show ?thesis
    using g c hz hc by (simp add: s record_history_def buffers_ok_def)
qed

lemma iterates_buffers_ok:
  assumes "iterates genv self t_init t_final u_init s0 s"
  shows "\<exists>g. genv = Some g \<and> buffers_ok (numVars (model self)) (nx g + 1) s"
  using assms
proof (induction rule: iterates.induct)
  case (first s)
  then show ?case using run_init_Inr by blast
next
  case (again s s')
  then show ?case using step_Inr by blast
qed

subsection \<open>Evaluating the small run\<close>

lemmas demo_defs = demo_grid_def demo_stepper_def demo_model_def demo_state_def demo_u0_def

lemmas eval_defs = run_init_def zeros_def copyto_def is_array_def Let_def record_history_def
  step_def step_to_corrector_def step_dt_def cfl_timestep_def clamp_dt_def amax_def
  predictor_body_def predictor_value_def corrector_body_def corrector_value_def
  left_bc_def right_bc_def setcol_def fit_def subtract_def add_def broadcast2_def
  scale_def divide_def matmul_def dot_def eval_nat_numeral upt_rec

lemmas float_defs = fadd_def fsub_def fmul_def fdiv_def fl64_def rne_def pow2_def
  normalize.simps

lemma demo_floats:
  "fdiv (1/2) 1 = 1/2" "fmul (1/2) (1/2) = 1/4"
  "fsub (1/2) 0 = 1/2" "fadd 0 (1/4) = 1/4"
  "fsub (1/2) (1/4) = 1/4" "fadd (1/4) (1/4) = 1/2"
  by (simp_all add: float_defs Let_def)

lemma demo_first_eq:
  "run_init (Some demo_grid) demo_stepper 0 demo_u0 demo_state = Inr demo_first"
  by (simp add: demo_first_def demo_defs eval_defs demo_floats fun_eq_iff)

lemma demo_second_eq: "step demo_stepper (1/2) demo_first = Inr demo_second"
  by (simp add: demo_second_def demo_first_def demo_defs eval_defs demo_floats fun_eq_iff)

lemma demo_iterates_first:
  "iterates (Some demo_grid) demo_stepper 0 (1/2) demo_u0 demo_state demo_first"
  by (rule iterates.first[OF demo_first_eq])

lemma amax_abs_Inr:
  assumes "amax (map abs v) = Inr l"
  shows "v \<noteq> [] \<and> l = Max (abs ` set v) \<and> 0 \<le> l"
proof -
  from assms obtain x xs where v: "v = x # xs" by (cases v) (auto simp: amax_def)
  with assms have "l = fold max (map abs xs) \<bar>x\<bar>" by (simp add: amax_def)
  also have "\<dots> = Max (set (\<bar>x\<bar> # map abs xs))" by (simp only: Max.set_eq_fold)
  finally have l: "l = Max (abs ` set v)" by (simp add: v)
  have "\<bar>x\<bar> \<le> Max (abs ` set v)" by (rule Max_ge) (simp_all add: v)
  then have "0 \<le> l" using l by linarith
  with v l show ?thesis by simp
qed

lemma lambda_max_loop_Inr:
  assumes "lambda_max_loop md xs acc = Inr lam"
  shows "(\<forall>x\<in>set xs. jacEigenvalues md x \<noteq> [])
       \<and> lam = Max (insert acc ((\<lambda>x. Max (abs ` set (jacEigenvalues md x))) ` set xs))"
  using assms
proof (induction xs arbitrary: acc)
  case Nil
  then show ?case by simp
next
  case (Cons x xs)
  let ?m = "\<lambda>x. Max (abs ` set (jacEigenvalues md x))"
  from Cons.prems obtain l where l: "amax (map abs (jacEigenvalues md x)) = Inr l"
    and r: "lambda_max_loop md xs (max acc l) = Inr lam"
    by (auto split: sum.splits)
  from amax_abs_Inr[OF l] have ne: "jacEigenvalues md x \<noteq> []" and lm: "l = ?m x" by simp_all
  from Cons.IH[OF r] have all: "\<forall>x\<in>set xs. jacEigenvalues md x \<noteq> []"
    and lam: "lam = Max (insert (max acc l) (?m ` set xs))" by simp_all
  have fin: "finite (?m ` set xs)" by simp
  have "Max (insert (max acc l) (?m ` set xs)) = Max (insert acc (insert l (?m ` set xs)))"
  proof (cases "?m ` set xs = {}")
    case True
    then show ?thesis by (simp add: max.commute)
  next
    case False
    with fin show ?thesis by (simp add: max.assoc)
  qed
  with lam lm ne all show ?case by simp
qed

lemma cfl_timestep_Inr:
  assumes "cfl_timestep self = Inr dt0"
  shows "\<exists>lambda_max.
      lambda_max_loop (model self) (X (grid self)) 0 = Inr lambda_max
    \<and> X (grid self) \<noteq> []
    \<and> (\<forall>x\<in>set (X (grid self)). jacEigenvalues (model self) x \<noteq> [])
    \<and> lambda_max = Max ((\<lambda>x. Max (abs ` set (jacEigenvalues (model self) x))) ` set (X (grid self)))
    \<and> 0 < lambda_max
    \<and> dt0 = fmul (epsilon self) (fdiv (dx (grid self)) lambda_max)"
proof -
  let ?m = "\<lambda>x. Max (abs ` set (jacEigenvalues (model self) x))"
  let ?S = "?m ` set (X (grid self))"
  from assms obtain lam where loop: "lambda_max_loop (model self) (X (grid self)) 0 = Inr lam"
    and nz: "lam \<noteq> 0" and dt0: "dt0 = fmul (epsilon self) (fdiv (dx (grid self)) lam)"
    by (auto simp: cfl_timestep_def bindE_Inr_iff split: if_splits)
  from lambda_max_loop_Inr[OF loop]
  have ne: "\<forall>x\<in>set (X (grid self)). jacEigenvalues (model self) x \<noteq> []"
    and lam: "lam = Max (insert 0 ?S)" by simp_all
  have xs: "X (grid self) \<noteq> []" using lam nz by auto
  then have Sne: "?S \<noteq> {}" by simp
  have fin: "finite ?S" by simp
  have nonneg: "0 \<le> y" if "y \<in> ?S" for y
  proof -
    from that obtain x where x: "x \<in> set (X (grid self))" and y: "y = ?m x" by blast
    from ne x obtain e where e: "e \<in> set (jacEigenvalues (model self) x)"
      by (meson last_in_set)
    then have "\<bar>e\<bar> \<le> ?m x" by (intro Max_ge) simp_all
    then show ?thesis using y by linarith
  qed
  have "0 \<le> Max ?S" using Max_in[OF fin Sne] nonneg by blast
  then have eq: "lam = Max ?S" using lam fin Sne by (simp add: max_def)
  have pos: "0 < lam" using \<open>0 \<le> Max ?S\<close> eq nz by linarith
  from loop xs ne eq pos dt0 show ?thesis by blast
qed

lemma step_dt_Inr:
  "step_dt self t_final t = Inr dt \<longleftrightarrow>
     (\<exists>dt0. cfl_timestep self = Inr dt0 \<and> dt = clamp_dt t_final t dt0)"
  by (auto simp: step_dt_def bindE_Inr_iff)

lemma step_time:
  assumes "buffers_ok r c s" and "step self t_final s = Inr s'"
  shows "\<exists>dt0. cfl_timestep self = Inr dt0
    \<and> t_cur s' = fadd (t_cur s) (clamp_dt t_final (t_cur s) dt0)
    \<and> history s' = history s @ [(t_cur s', fresh s)]
    \<and> n_steps s' = n_steps s + 1"
proof -
  from step_Inr[OF assms] obtain dt sc where
    tc: "step_to_corrector self t_final s = Inr (dt, sc)" and t': "t_cur s' = fadd (t_cur s) dt"
    and h: "history s' = history s @ [(fadd (t_cur s) dt, fresh s)]"
    and n: "n_steps s' = n_steps s + 1"
    by blast
  from step_to_corrector_Inr[OF assms(1) tc] have "step_dt self t_final (t_cur s) = Inr dt"
    by blast
  then obtain dt0 where "cfl_timestep self = Inr dt0" "dt = clamp_dt t_final (t_cur s) dt0"
    unfolding step_dt_Inr by blast
  with t' h n show ?thesis by simp
qed

lemma iterates_history:
  assumes "iterates genv self t_init t_final u_init s0 s"
  shows "history s \<noteq> [] \<and> fst (hd (history s)) = t_init \<and> fst (last (history s)) = t_cur s
       \<and> length (history s) = n_steps s + 1"
  using assms
proof (induction rule: iterates.induct)
  case (first s)
  from run_init_Inr[OF first] show ?case by auto
next
  case (again s s')
  from iterates_buffers_ok[OF again.hyps(1)] obtain g :: Grid1D where
    ok: "buffers_ok (numVars (model self)) (nx g + 1) s" by blast
  from step_time[OF ok again.hyps(3)] again.IH show ?case by auto
qed

lemma run_loop_Inr:
  assumes "run_loop self t_final s = Some r"
  shows "\<forall>s'. r = Inr s' \<longrightarrow> iterates genv self t_init t_final u_init s0 s
           \<longrightarrow> iterates genv self t_init t_final u_init s0 s' \<and> t_final \<le> t_cur s'"
proof (rule run_loop.raw_induct[where P = "\<lambda>sf T s1 r1. \<forall>s'. r1 = Inr s'
           \<longrightarrow> iterates genv sf t_init T u_init s0 s1
           \<longrightarrow> iterates genv sf t_init T u_init s0 s' \<and> T \<le> t_cur s'", OF _ assms])
  fix f :: "MacCormackStepper \<Rightarrow> real \<Rightarrow> state \<Rightarrow> (error + state) option"
    and sf T s1 r1
  assume IH: "\<And>sf T s1 r1. f sf T s1 = Some r1 \<Longrightarrow> \<forall>s'. r1 = Inr s'
           \<longrightarrow> iterates genv sf t_init T u_init s0 s1
           \<longrightarrow> iterates genv sf t_init T u_init s0 s' \<and> T \<le> t_cur s'"
    and eq: "(if t_cur s1 < T
              then case step sf T s1 of Inl e \<Rightarrow> Some (Inl e) | Inr s' \<Rightarrow> f sf T s'
              else Some (Inr s1)) = Some r1"
  show "\<forall>s'. r1 = Inr s' \<longrightarrow> iterates genv sf t_init T u_init s0 s1
           \<longrightarrow> iterates genv sf t_init T u_init s0 s' \<and> T \<le> t_cur s'"
  proof (cases "t_cur s1 < T")
    case False
    with eq show ?thesis by auto
  next
    case True
    show ?thesis
    proof (cases "step sf T s1")
      case (Inl e)
      with True eq show ?thesis by auto
    next
      case (Inr s2)
      with True eq have "f sf T s2 = Some r1" by simp
      from IH[OF this] iterates.again[OF _ True Inr] show ?thesis by blast
    qed
  qed
qed

lemma run_Inr:
  assumes "run genv self t_init t_final u_init s0 = Some (Inr s)"
  shows "iterates genv self t_init t_final u_init s0 s \<and> t_final \<le> t_cur s"
proof -
  from assms obtain si where i: "run_init genv self t_init u_init s0 = Inr si"
    and l: "run_loop self t_final si = Some (Inr s)"
    by (auto simp: run_def split: sum.splits)
  from run_loop_Inr[OF l] iterates.first[OF i] show ?thesis by blast
qed


lemma demo_third_eq: "step demo_stepper (1/2) demo_second = Inr demo_third"
  by (simp add: demo_third_def demo_second_def demo_defs eval_defs demo_floats fun_eq_iff)

lemma demo_times:
  "t_cur demo_first = 0" "t_cur demo_second = 1/4" "t_cur demo_third = 1/2"
  by (simp_all add: demo_third_def demo_second_def demo_first_def)

lemma demo_iterates_second:
  "iterates (Some demo_grid) demo_stepper 0 (1/2) demo_u0 demo_state demo_second"
  by (rule iterates.again[OF demo_iterates_first _ demo_second_eq]) (simp add: demo_times)

lemma demo_iterates_third:
  "iterates (Some demo_grid) demo_stepper 0 (1/2) demo_u0 demo_state demo_third"
  by (rule iterates.again[OF demo_iterates_second _ demo_third_eq]) (simp add: demo_times)

lemma demo_run:
  "run (Some demo_grid) demo_stepper 0 (1/2) demo_u0 demo_state = Some (Inr demo_third)"
proof -
  have "run_loop demo_stepper (1/2) demo_third = Some (Inr demo_third)"
    by (subst run_loop.simps) (simp add: demo_times)
  then have "run_loop demo_stepper (1/2) demo_second = Some (Inr demo_third)"
    by (subst run_loop.simps) (simp add: demo_times demo_third_eq)
  then have "run_loop demo_stepper (1/2) demo_first = Some (Inr demo_third)"
    by (subst run_loop.simps) (simp add: demo_times demo_second_eq)
  then show ?thesis by (simp add: run_def demo_first_eq)
qed

lemma demo_history:
  "history demo_third = [(0, 3), (1/4, 4), (1/2, 5)]" "n_steps demo_third = 2"
  by (simp_all add: demo_third_def)

lemmas wide_defs = wide_grid_def still_model_def wide_stepper_def flat_u0_def demo_state_def

lemma wide_floats:
  "fdiv 8 1 = 8" "fmul 1 8 = 8"
  "fsub t07 (- 4) = d47" "fadd (- 4) d47 = t07_over"
  "fsub t05_next (- 4) = 9/2" "fadd (- 4) (9/2) = 1/2"
  "fsub t05_next (1/2) = ulp05" "fadd (1/2) ulp05 = t05_next"
  by (simp_all add: float_defs Let_def t07_def d47_def t07_over_def t05_next_def ulp05_def)

lemma wide_cfl: "cfl_timestep wide_stepper = Inr 8"
  by (simp add: wide_defs eval_defs wide_floats)

lemma wide_first_eq:
  "run_init (Some wide_grid) wide_stepper (- 4) flat_u0 demo_state = Inr wide_first"
  by (simp add: wide_first_def wide_defs eval_defs fun_eq_iff)

lemma wide_consts: "d47 \<le> 8" "t07_over \<noteq> t07" "t07 < t07_over" "- 4 < t07" "(9/2::real) \<le> 8"
  "ulp05 \<le> 8" "1/2 < t05_next" "- 4 < t05_next"
  by (simp_all add: t07_def d47_def t07_over_def t05_next_def ulp05_def)

lemma over_second_eq: "step wide_stepper t07 wide_first = Inr over_second"
  by (simp add: wide_first_def over_second_def wide_defs eval_defs wide_floats wide_consts
        fun_eq_iff)

lemma twice_second_eq: "step wide_stepper t05_next wide_first = Inr twice_second"
  by (simp add: wide_first_def twice_second_def wide_defs eval_defs wide_floats wide_consts
        fun_eq_iff)

lemma twice_third_eq: "step wide_stepper t05_next twice_second = Inr twice_third"
  by (simp add: twice_second_def twice_third_def wide_defs eval_defs wide_floats wide_consts
        fun_eq_iff)


lemma wide_iterates_first:
  "iterates (Some wide_grid) wide_stepper (- 4) t_final flat_u0 demo_state wide_first"
  by (rule iterates.first[OF wide_first_eq])

lemma wide_times:
  "t_cur wide_first = - 4" "t_cur over_second = t07_over" "t_cur twice_second = 1/2"
  "t_cur twice_third = t05_next"
  by (simp_all add: wide_first_def over_second_def twice_second_def twice_third_def)

lemma over_run:
  "run (Some wide_grid) wide_stepper (- 4) t07 flat_u0 demo_state = Some (Inr over_second)"
proof -
  have "run_loop wide_stepper t07 over_second = Some (Inr over_second)"
    using wide_consts by (subst run_loop.simps) (simp add: wide_times)
  then have "run_loop wide_stepper t07 wide_first = Some (Inr over_second)"
    using wide_consts by (subst run_loop.simps) (simp add: wide_times over_second_eq)
  then show ?thesis by (simp add: run_def wide_first_eq)
qed

lemma twice_run:
  "run (Some wide_grid) wide_stepper (- 4) t05_next flat_u0 demo_state = Some (Inr twice_third)"
proof -
  have "run_loop wide_stepper t05_next twice_third = Some (Inr twice_third)"
    by (subst run_loop.simps) (simp add: wide_times)
  then have "run_loop wide_stepper t05_next twice_second = Some (Inr twice_third)"
    using wide_consts by (subst run_loop.simps) (simp add: wide_times twice_third_eq)
  then have "run_loop wide_stepper t05_next wide_first = Some (Inr twice_third)"
    using wide_consts by (subst run_loop.simps) (simp add: wide_times twice_second_eq)
  then show ?thesis by (simp add: run_def wide_first_eq)
qed









lemma iterates_timesteps:
  assumes "iterates genv self t_init t_final u_init s0 s" and "Suc k < length (history s)"
  shows "\<exists>dt0. cfl_timestep self = Inr dt0
    \<and> fst (history s ! k) < t_final
    \<and> fst (history s ! Suc k)
         = fadd (fst (history s ! k)) (clamp_dt t_final (fst (history s ! k)) dt0)"
  using assms
proof (induction arbitrary: k rule: iterates.induct)
  case (first s)
  from run_init_Inr[OF first(1)] first(2) show ?case by auto
next
  case (again s s')
  from iterates_buffers_ok[OF again.hyps(1)] obtain g :: Grid1D where
    ok: "buffers_ok (numVars (model self)) (nx g + 1) s" by blast
  from step_time[OF ok again.hyps(3)] obtain dt0 where c: "cfl_timestep self = Inr dt0"
    and t': "t_cur s' = fadd (t_cur s) (clamp_dt t_final (t_cur s) dt0)"
    and h: "history s' = history s @ [(t_cur s', fresh s)]" by blast
  from iterates_history[OF again.hyps(1)] have ne: "history s \<noteq> []"
    and la: "fst (last (history s)) = t_cur s" by simp_all
  show ?case
  proof (cases "Suc k < length (history s)")
    case True
    from again.IH[OF True] True show ?thesis by (simp add: h nth_append)
  next
    case False
    with again.prems have k: "Suc k = length (history s)" by (simp add: h)
    then have a: "history s' ! Suc k = (t_cur s', fresh s)" by (simp add: h)
    from k[symmetric] ne have b: "history s' ! k = last (history s)"
      by (simp add: h nth_append last_conv_nth)
    from a b la c t' again.hyps(2) show ?thesis by simp
  qed
qed


lemma demo_cfl: "cfl_timestep demo_stepper = Inr (1/4)"
  by (simp add: demo_defs eval_defs demo_floats)

lemma more_floats: "fsub 8 0 = 8" "fadd 0 8 = 8" "fsub 0 (- 4) = 4"
  by (simp_all add: float_defs Let_def)






lemmas frozen_defs = frozen_stepper_def demo_grid_def demo_model_def demo_u0_def demo_state_def

lemma frozen_first_eq:
  "run_init (Some demo_grid) frozen_stepper 0 demo_u0 demo_state = Inr demo_first"
  by (simp add: demo_first_def frozen_defs eval_defs fun_eq_iff)

lemma frozen_second_eq: "step frozen_stepper (1/2) demo_first = Inr frozen_second"
  by (simp add: demo_first_def frozen_second_def frozen_defs eval_defs demo_floats fun_eq_iff)

lemmas pair_defs = pair_stepper_def pair_model_def wide_grid_def row_u0_def demo_state_def

lemma pair_first_eq:
  "run_init (Some wide_grid) pair_stepper 0 row_u0 demo_state = Inr pair_first"
  by (simp add: pair_first_def pair_defs eval_defs fun_eq_iff)

lemma pair_second_eq: "step pair_stepper 8 pair_first = Inr pair_second"
  by (simp add: pair_first_def pair_second_def pair_defs eval_defs wide_floats more_floats
        fun_eq_iff)

lemma pair_run:
  "run (Some wide_grid) pair_stepper 0 8 row_u0 demo_state = Some (Inr pair_second)"
proof -
  have "run_loop pair_stepper 8 pair_second = Some (Inr pair_second)"
    by (subst run_loop.simps) (simp add: pair_second_def)
  then have "run_loop pair_stepper 8 pair_first = Some (Inr pair_second)"
    by (subst run_loop.simps) (simp add: pair_second_eq, simp add: pair_first_def)
  then show ?thesis by (simp add: run_def pair_first_eq)
qed

lemmas slip_defs = wide_stepper_def still_model_def wide_grid_def demo_grid_def long_u0_def
  demo_state_def

lemma slip_first_eq:
  "run_init (Some demo_grid) wide_stepper 0 long_u0 demo_state = Inr slip_first"
  by (simp add: slip_first_def slip_defs eval_defs fun_eq_iff)

lemma slip_second_eq: "step wide_stepper 8 slip_first = Inr slip_second"
  by (simp add: slip_first_def slip_second_def slip_defs eval_defs wide_floats more_floats
        fun_eq_iff)

lemma slip_run:
  "run (Some demo_grid) wide_stepper 0 8 long_u0 demo_state = Some (Inr slip_second)"
proof -
  have "run_loop wide_stepper 8 slip_second = Some (Inr slip_second)"
    by (subst run_loop.simps) (simp add: slip_second_def)
  then have "run_loop wide_stepper 8 slip_first = Some (Inr slip_second)"
    by (subst run_loop.simps) (simp add: slip_second_eq, simp add: slip_first_def)
  then show ?thesis by (simp add: run_def slip_first_eq)
qed

lemma no_global_run:
  "run None wide_stepper 0 8 flat_u0 demo_state = Some (Inl NameError)"
  by (simp add: run_def run_init_def)


lemma iterates_heap:
  assumes "iterates genv self t_init t_final u_init s0 s"
  shows "list_all (\<lambda>e. snd e < fresh s \<and> snd e \<noteq> u_prev s \<and> snd e \<noteq> u_pred s
                       \<and> snd e \<noteq> u_cur s) (history s)
       \<and> distinct (map snd (history s))
       \<and> history s \<noteq> []
       \<and> cells s (snd (last (history s))) = cells s (u_cur s)"
  using assms
proof (induction rule: iterates.induct)
  case (first s)
  from run_init_Inr[OF first] show ?case by auto
next
  case (again s s')
  from iterates_buffers_ok[OF again.hyps(1)] obtain g :: Grid1D where
    ok: "buffers_ok (numVars (model self)) (nx g + 1) s" by blast
  then have fr: "u_prev s < fresh s" "u_pred s < fresh s" "u_cur s < fresh s"
    by (simp_all add: buffers_ok_def)
  from step_Inr[OF ok again.hyps(3)] obtain dt where
    r: "u_prev s' = u_prev s" "u_pred s' = u_pred s" "u_cur s' = u_cur s"
    and f: "fresh s' = fresh s + 1"
    and h: "history s' = history s @ [(fadd (t_cur s) dt, fresh s)]"
    and c: "cells s' (fresh s) = cells s' (u_cur s)"
    by blast
  from again.IH have old: "list_all (\<lambda>e. snd e < fresh s \<and> snd e \<noteq> u_prev s
        \<and> snd e \<noteq> u_pred s \<and> snd e \<noteq> u_cur s) (history s)"
    and di: "distinct (map snd (history s))" by simp_all
  from old have lt: "\<forall>e\<in>set (history s). snd e < fresh s" by (simp add: list_all_iff)
  have "list_all (\<lambda>e. snd e < fresh s' \<and> snd e \<noteq> u_prev s' \<and> snd e \<noteq> u_pred s'
                       \<and> snd e \<noteq> u_cur s') (history s')"
    using old fr by (auto simp: h r f list_all_iff)
  moreover have "distinct (map snd (history s'))"
    using di lt by (auto simp: h)
  moreover have "cells s' (snd (last (history s'))) = cells s' (u_cur s')"
    using c by (simp add: h r)
  ultimately show ?case by (simp add: h)
qed

lemma step_snapshots:
  assumes "iterates genv self t_init t_final u_init s0 s" and "step self t_final s = Inr s'"
  shows "snapshots s' = snapshots s @ [(t_cur s', cells s' (u_cur s'))]"
proof -
  from iterates_buffers_ok[OF assms(1)] obtain g :: Grid1D where
    ok: "buffers_ok (numVars (model self)) (nx g + 1) s" by blast
  from step_Inr[OF ok assms(2)] obtain dt where
    r: "u_cur s' = u_cur s" and t: "t_cur s' = fadd (t_cur s) dt"
    and h: "history s' = history s @ [(fadd (t_cur s) dt, fresh s)]"
    and c: "cells s' (fresh s) = cells s' (u_cur s)"
    and o: "\<forall>a. a \<noteq> u_prev s \<and> a \<noteq> u_pred s \<and> a \<noteq> u_cur s \<and> a \<noteq> fresh s
           \<longrightarrow> cells s' a = cells s a"
    by blast
  from iterates_heap[OF assms(1)] have
    "\<forall>e\<in>set (history s). snd e < fresh s \<and> snd e \<noteq> u_prev s \<and> snd e \<noteq> u_pred s
        \<and> snd e \<noteq> u_cur s" by (simp add: list_all_iff)
  with o have "\<forall>e\<in>set (history s). cells s' (snd e) = cells s (snd e)" by auto
  then have "map (\<lambda>e. (fst e, cells s' (snd e))) (history s)
           = map (\<lambda>e. (fst e, cells s (snd e))) (history s)" by simp
  then show ?thesis by (simp add: snapshots_def h c r t)
qed

lemma advance_iterates:
  assumes "(advance self t_final)\<^sup>*\<^sup>* s s'" and "iterates genv self t_init t_final u_init s0 s"
  shows "iterates genv self t_init t_final u_init s0 s'
       \<and> take (length (snapshots s)) (snapshots s') = snapshots s"
  using assms
proof (induction rule: rtranclp_induct)
  case base
  then show ?case by simp
next
  case (step y z)
  from step.IH[OF step.prems] have it: "iterates genv self t_init t_final u_init s0 y"
    and tk: "take (length (snapshots s)) (snapshots y) = snapshots s" by simp_all
  from step.hyps(2) have lt: "t_cur y < t_final" and st: "step self t_final y = Inr z"
    by (simp_all add: advance_def)
  have le: "length (snapshots s) \<le> length (snapshots y)"
    using arg_cong[OF tk, of length] by simp
  from step_snapshots[OF it st] le tk iterates.again[OF it lt st] show ?case by simp
qed

lemma snapshots_frame:
  assumes "iterates genv self t_init t_final u_init s0 s"
    and "\<forall>a. a \<noteq> u_prev s \<and> a \<noteq> u_pred s \<and> a \<noteq> u_cur s \<longrightarrow> cells' a = cells s a"
  shows "snapshots (s\<lparr>cells := cells'\<rparr>) = snapshots s"
proof -
  from iterates_heap[OF assms(1)] have
    "\<forall>e\<in>set (history s). snd e \<noteq> u_prev s \<and> snd e \<noteq> u_pred s \<and> snd e \<noteq> u_cur s"
    by (simp add: list_all_iff)
  with assms(2) have "\<forall>e\<in>set (history s). cells' (snd e) = cells s (snd e)" by auto
  then show ?thesis by (simp add: snapshots_def)
qed

lemma snapshots_last:
  assumes "iterates genv self t_init t_final u_init s0 s"
  shows "last (snapshots s) = (t_cur s, cells s (u_cur s))"
proof -
  from iterates_heap[OF assms] have ne: "history s \<noteq> []"
    and c: "cells s (snd (last (history s))) = cells s (u_cur s)" by simp_all
  from iterates_history[OF assms] have t: "fst (last (history s)) = t_cur s" by simp
  from ne c t show ?thesis by (simp add: snapshots_def last_map)
qed


lemma bindE_Inl_iff: "bindE r f = Inl e \<longleftrightarrow> (r = Inl e \<or> (\<exists>v. r = Inr v \<and> f v = Inl e))"
  by (cases r) (simp_all add: bindE_def)

lemma builtin_simps [simp]:
  "builtin NameError" "builtin ValueError" "builtin IndexError" "builtin ZeroDivisionError"
  "\<not> builtin InvalidRangeError" "\<not> builtin DivergentStepError"
  by (simp_all add: builtin_def)




lemma copyto_Inl: "copyto dst src = Inl e \<Longrightarrow> e = ValueError"
  by (simp add: copyto_def Let_def split: if_splits)




















lemma demo_advance: "advance demo_stepper (1/2) demo_second demo_third"
  by (simp add: advance_def demo_times demo_third_eq)

lemma demo_snapshots:
  "snapshots demo_first = [(0, [[0], [1], [4]])]"
  "snapshots demo_second = [(0, [[0], [1], [4]]), (1/4, [[1/4], [7/16], [1]])]"
  "snapshots demo_third
     = [(0, [[0], [1], [4]]), (1/4, [[1/4], [7/16], [1]]), (1/2, [[1/2], [49/128], [7/16]])]"
  by (simp_all add: snapshots_def demo_first_def demo_second_def demo_third_def)

section \<open>The claims\<close>

text \<open>
  C1. In every iteration of the loop of \<^verbatim>\<open>run\<close> that completes, and for every interior
  node \<open>1 \<le> i < nx\<close>: \<^verbatim>\<open>u_prev\<close> holds the state the iteration started from, the
  predictor has stored in column \<open>i\<close> of \<^verbatim>\<open>u_pred\<close> the value
  \<open>u_prev[:,i] - dt * J(X[i]) @ ((u_prev[:,i+1] - u_prev[:,i]) / dx)\<close>, and the corrector
  has stored in column \<open>i\<close> of \<^verbatim>\<open>u_cur\<close> the value
  \<open>0.5 * (u_pred[:,i] + u_prev[:,i]) - 0.5 * dt * J(X[i]) @ ((u_pred[:,i] - u_pred[:,i-1]) / dx)\<close>,
  where \<open>dt\<close> is the timestep of the iteration and the Jacobian is taken at \<open>X[i]\<close> in
  both stages.
\<close>

theorem predictor_corrector_columns:
  assumes "iterates genv self t_init t_final u_init s0 s"
    and "step self t_final s = Inr s'"
    and "1 \<le> i" and "i < nx (grid self)"
  shows "\<exists>dt d Jp d' Jc sm.
      step_dt self t_final (t_cur s) = Inr dt
    \<and> cells s' (u_prev s') = cells s (u_cur s)
    \<and> subtract (cells s' (u_prev s') ! (i + 1)) (cells s' (u_prev s') ! i) = Inr d
    \<and> matmul (jacobian (model self) (X (grid self) ! i)) (divide d (dx (grid self))) = Inr Jp
    \<and> subtract (cells s' (u_prev s') ! i) (scale dt Jp) = Inr (cells s' (u_pred s') ! i)
    \<and> subtract (cells s' (u_pred s') ! i) (cells s' (u_pred s') ! (i - 1)) = Inr d'
    \<and> matmul (jacobian (model self) (X (grid self) ! i)) (divide d' (dx (grid self))) = Inr Jc
    \<and> add (cells s' (u_pred s') ! i) (cells s' (u_prev s') ! i) = Inr sm
    \<and> subtract (scale 0.5 sm) (scale (0.5 * dt) Jc) = Inr (cells s' (u_cur s') ! i)"
proof -
  from iterates_buffers_ok[OF assms(1)] obtain g :: Grid1D where
    ok: "buffers_ok (numVars (model self)) (nx g + 1) s" by blast
  from step_Inr[OF ok assms(2)] obtain dt sc where
    tc: "step_to_corrector self t_final s = Inr (dt, sc)"
    and r: "u_prev s' = u_prev s" "u_pred s' = u_pred s" "u_cur s' = u_cur s"
    and c: "cells s' (u_prev s) = cells s (u_cur s)" "cells s' (u_pred s) = cells sc (u_pred s)"
    and cv: "corrector_value self dt (cells s (u_cur s)) (cells sc (u_pred s)) i
               = Inr (cells s' (u_cur s) ! i)"
    using assms(3,4) by auto
  from step_to_corrector_Inr[OF ok tc] have dt: "step_dt self t_final (t_cur s) = Inr dt"
    and pv: "predictor_value self dt (cells s (u_cur s)) i = Inr (cells sc (u_pred s) ! i)"
    using assms(3,4) by auto
  from pv obtain d Jp where
    "subtract (cells s (u_cur s) ! (i + 1)) (cells s (u_cur s) ! i) = Inr d"
    "matmul (jacobian (model self) (X (grid self) ! i)) (divide d (dx (grid self))) = Inr Jp"
    "subtract (cells s (u_cur s) ! i) (scale dt Jp) = Inr (cells sc (u_pred s) ! i)"
    unfolding predictor_value_iff by blast
  moreover from cv obtain d' Jc sm where
    "subtract (cells sc (u_pred s) ! i) (cells sc (u_pred s) ! (i - 1)) = Inr d'"
    "matmul (jacobian (model self) (X (grid self) ! i)) (divide d' (dx (grid self))) = Inr Jc"
    "add (cells sc (u_pred s) ! i) (cells s (u_cur s) ! i) = Inr sm"
    "subtract (scale 0.5 sm) (scale (0.5 * dt) Jc) = Inr (cells s' (u_cur s) ! i)"
    unfolding corrector_value_iff by blast
  ultimately show ?thesis using dt by (simp add: r c)
qed

theorem predictor_corrector_columns_witness:
  "iterates (Some demo_grid) demo_stepper 0 (1/2) demo_u0 demo_state demo_first
   \<and> step demo_stepper (1/2) demo_first = Inr demo_second
   \<and> (\<exists>dt d Jp d' Jc sm.
        step_dt demo_stepper (1/2) (t_cur demo_first) = Inr dt
      \<and> cells demo_second (u_prev demo_second) = cells demo_first (u_cur demo_first)
      \<and> subtract (cells demo_second (u_prev demo_second) ! (1 + 1))
           (cells demo_second (u_prev demo_second) ! 1) = Inr d
      \<and> matmul (jacobian (model demo_stepper) (X (grid demo_stepper) ! 1))
           (divide d (dx (grid demo_stepper))) = Inr Jp
      \<and> subtract (cells demo_second (u_prev demo_second) ! 1) (scale dt Jp)
           = Inr (cells demo_second (u_pred demo_second) ! 1)
      \<and> subtract (cells demo_second (u_pred demo_second) ! 1)
           (cells demo_second (u_pred demo_second) ! (1 - 1)) = Inr d'
      \<and> matmul (jacobian (model demo_stepper) (X (grid demo_stepper) ! 1))
           (divide d' (dx (grid demo_stepper))) = Inr Jc
      \<and> add (cells demo_second (u_pred demo_second) ! 1)
           (cells demo_second (u_prev demo_second) ! 1) = Inr sm
      \<and> subtract (scale 0.5 sm) (scale (0.5 * dt) Jc)
           = Inr (cells demo_second (u_cur demo_second) ! 1))
   \<and> cells demo_second (u_pred demo_second) ! 1 = [- 1 / 2]
   \<and> cells demo_second (u_cur demo_second) ! 1 = [7 / 16]"
proof -
  have n: "(1::nat) \<le> 1" "1 < nx (grid demo_stepper)"
    by (simp_all add: demo_defs)
  have v: "cells demo_second (u_pred demo_second) ! 1 = [- 1 / 2]"
    "cells demo_second (u_cur demo_second) ! 1 = [7 / 16]"
    by (simp_all add: demo_second_def demo_first_def demo_defs eval_defs demo_floats)
  show ?thesis
    using predictor_corrector_columns[OF demo_iterates_first demo_second_eq n]
      demo_iterates_first demo_second_eq v
    by simp
qed

text \<open>
  C4. In every iteration of the loop of \<^verbatim>\<open>run\<close> that completes, the boundary updaters
  are called once each, \<^verbatim>\<open>applyLeftBC\<close> first, with the arguments
  \<open>(X[0], t + dt, dx, dt, u_prev)\<close> and \<open>(X[-1], t + dt, dx, dt, u_prev)\<close>, where
  \<^verbatim>\<open>u_prev\<close> holds the whole state the iteration started from. At the corrector's start
  the left result stands in column 0 of both \<^verbatim>\<open>u_cur\<close> and \<^verbatim>\<open>u_pred\<close>, and
  \<^verbatim>\<open>u_pred\<close> is not touched afterwards; at the end of the iteration the right result
  stands in the last column of \<^verbatim>\<open>u_cur\<close> (and the left one still in column 0, when
  the buffers have more than one column).
\<close>

theorem boundary_updater_calls:
  assumes "iterates genv self t_init t_final u_init s0 s"
    and "step self t_final s = Inr s'"
  shows "\<exists>dt sc.
      step_dt self t_final (t_cur s) = Inr dt
    \<and> step_to_corrector self t_final s = Inr (dt, sc)
    \<and> cells s' (u_prev s') = cells s (u_cur s)
    \<and> calls s' = calls s @
         [LeftBC (X (grid self) ! 0) (fadd (t_cur s) dt) (dx (grid self)) dt (cells s (u_cur s)),
          RightBC (last (X (grid self))) (fadd (t_cur s) dt) (dx (grid self)) dt (cells s (u_cur s))]
    \<and> fit (numVars (model self))
         (applyLeftBC (model self) (X (grid self) ! 0) (fadd (t_cur s) dt) (dx (grid self)) dt
            (cells s (u_cur s))) = Some (cells sc (u_cur sc) ! 0)
    \<and> cells sc (u_pred sc) ! 0 = cells sc (u_cur sc) ! 0
    \<and> cells s' (u_pred s') = cells sc (u_pred sc)
    \<and> (1 < length (cells s (u_cur s)) \<longrightarrow> cells s' (u_cur s') ! 0 = cells sc (u_cur sc) ! 0)
    \<and> fit (numVars (model self))
         (applyRightBC (model self) (last (X (grid self))) (fadd (t_cur s) dt) (dx (grid self)) dt
            (cells s (u_cur s))) = Some (last (cells s' (u_cur s')))"
proof -
  from iterates_buffers_ok[OF assms(1)] obtain g :: Grid1D where
    ok: "buffers_ok (numVars (model self)) (nx g + 1) s" by blast
  then have len: "length (cells s (u_cur s)) = nx g + 1"
    using has_shape_length unfolding buffers_ok_def by blast
  from step_Inr[OF ok assms(2)] obtain dt sc where
    tc: "step_to_corrector self t_final s = Inr (dt, sc)"
    and r: "u_prev s' = u_prev s" "u_pred s' = u_pred s" "u_cur s' = u_cur s"
    and cl: "calls s' = calls sc @ [RightBC (last (X (grid self))) (fadd (t_cur s) dt)
               (dx (grid self)) dt (cells s (u_cur s))]"
    and c: "cells s' (u_prev s) = cells s (u_cur s)" "cells s' (u_pred s) = cells sc (u_pred s)"
    and rv: "fit (numVars (model self))
         (applyRightBC (model self) (last (X (grid self))) (fadd (t_cur s) dt) (dx (grid self)) dt
            (cells s (u_cur s))) = Some (last (cells s' (u_cur s)))"
    and keep: "\<forall>j. j + 1 < nx g + 1 \<and> \<not> (1 \<le> j \<and> j < nx (grid self)) \<longrightarrow>
          cells s' (u_cur s) ! j = cells sc (u_cur s) ! j"
    by blast
  from step_to_corrector_Inr[OF ok tc] have dt: "step_dt self t_final (t_cur s) = Inr dt"
    and rc: "u_prev sc = u_prev s" "u_pred sc = u_pred s" "u_cur sc = u_cur s"
    and lc: "calls sc = calls s @ [LeftBC (X (grid self) ! 0) (fadd (t_cur s) dt) (dx (grid self)) dt
                               (cells s (u_cur s))]"
    and lv: "fit (numVars (model self))
         (applyLeftBC (model self) (X (grid self) ! 0) (fadd (t_cur s) dt) (dx (grid self)) dt
            (cells s (u_cur s))) = Some (cells sc (u_cur s) ! 0)"
    and eq: "cells sc (u_pred s) ! 0 = cells sc (u_cur s) ! 0"
    by simp_all
  from keep have k0: "1 < length (cells s (u_cur s)) \<longrightarrow>
      cells s' (u_cur s) ! 0 = cells sc (u_cur s) ! 0"
    by (simp add: len)
  show ?thesis
    apply (rule exI[of _ dt], rule exI[of _ sc])
    using dt tc cl lc c rv lv eq k0 by (simp add: r rc)
qed

theorem boundary_updater_calls_witness:
  "iterates (Some demo_grid) demo_stepper 0 (1/2) demo_u0 demo_state demo_first
   \<and> step demo_stepper (1/2) demo_first = Inr demo_second
   \<and> calls demo_second =
         [LeftBC 0 (1/4) (1/2) (1/4) [[0], [1], [4]], RightBC 1 (1/4) (1/2) (1/4) [[0], [1], [4]]]
   \<and> cells demo_second (u_pred demo_second) ! 0 = [1/4]
   \<and> cells demo_second (u_cur demo_second) = [[1/4], [7/16], [1]]
   \<and> (\<exists>dt sc.
      step_dt demo_stepper (1/2) (t_cur demo_first) = Inr dt
    \<and> step_to_corrector demo_stepper (1/2) demo_first = Inr (dt, sc)
    \<and> cells demo_second (u_prev demo_second) = cells demo_first (u_cur demo_first)
    \<and> calls demo_second = calls demo_first @
         [LeftBC (X (grid demo_stepper) ! 0) (fadd (t_cur demo_first) dt) (dx (grid demo_stepper)) dt
            (cells demo_first (u_cur demo_first)),
          RightBC (last (X (grid demo_stepper))) (fadd (t_cur demo_first) dt) (dx (grid demo_stepper))
            dt (cells demo_first (u_cur demo_first))]
    \<and> fit (numVars (model demo_stepper))
         (applyLeftBC (model demo_stepper) (X (grid demo_stepper) ! 0) (fadd (t_cur demo_first) dt)
            (dx (grid demo_stepper)) dt (cells demo_first (u_cur demo_first)))
          = Some (cells sc (u_cur sc) ! 0)
    \<and> cells sc (u_pred sc) ! 0 = cells sc (u_cur sc) ! 0
    \<and> cells demo_second (u_pred demo_second) = cells sc (u_pred sc)
    \<and> fit (numVars (model demo_stepper))
         (applyRightBC (model demo_stepper) (last (X (grid demo_stepper))) (fadd (t_cur demo_first) dt)
            (dx (grid demo_stepper)) dt (cells demo_first (u_cur demo_first)))
          = Some (last (cells demo_second (u_cur demo_second))))"
proof -
  have v: "calls demo_second =
         [LeftBC 0 (1/4) (1/2) (1/4) [[0], [1], [4]], RightBC 1 (1/4) (1/2) (1/4) [[0], [1], [4]]]"
    "cells demo_second (u_pred demo_second) ! 0 = [1/4]"
    "cells demo_second (u_cur demo_second) = [[1/4], [7/16], [1]]"
    by (simp_all add: demo_second_def demo_first_def demo_defs eval_defs demo_floats)
  from boundary_updater_calls[OF demo_iterates_first demo_second_eq]
  show ?thesis
    using demo_iterates_first demo_second_eq v by blast
qed




text \<open>
  C3. As stated the claim fails: the run from \<open>- 4\<close> to the float \<^verbatim>\<open>0.7\<close> with the
  timestep \<open>8\<close> clamps its only iteration to the float \<^verbatim>\<open>0.7 - (-4.0)\<close> and ends at
  \<^verbatim>\<open>0.7000000000000002\<close>, past \<open>t_final\<close>.
\<close>

theorem run_overshoots_t_final:
  "- 4 < t07
   \<and> run (Some wide_grid) wide_stepper (- 4) t07 flat_u0 demo_state = Some (Inr over_second)
   \<and> cfl_timestep wide_stepper = Inr 8
   \<and> fsub t07 (t_cur wide_first) \<le> 8
   \<and> step_dt wide_stepper t07 (t_cur wide_first) = Inr (fsub t07 (t_cur wide_first))
   \<and> fst (last (history over_second)) = t07_over
   \<and> t07_over \<noteq> t07
   \<and> t07 < t07_over"
proof -
  have a: "fsub t07 (t_cur wide_first) \<le> 8"
    by (simp add: wide_times wide_floats wide_consts)
  have b: "step_dt wide_stepper t07 (t_cur wide_first) = Inr (fsub t07 (t_cur wide_first))"
    using a by (simp add: step_dt_def wide_cfl clamp_dt_def)
  have c: "fst (last (history over_second)) = t07_over" by (simp add: over_second_def)
  show ?thesis
    by (intro conjI wide_consts(4) over_run wide_cfl a b c wide_consts(2) wide_consts(3))
qed

lemma iterates_earlier_times:
  assumes "iterates genv self t_init t_final u_init s0 s" and "Suc k < length (history s)"
  shows "fst (history s ! k) < t_final"
  using iterates_timesteps[OF assms] by blast

text \<open>
  C3, amended. For \<open>t_init < t_final\<close>, when the run returns normally: the history has
  \<open>n_steps + 1\<close> entries, \<open>n_steps\<close> being the number of completed iterations, at least
  one; its first time is \<open>t_init\<close>, every recorded time but the last is below \<open>t_final\<close>,
  and the last is not below \<open>t_final\<close>. In an iteration with the float
  \<open>t_final - t\<close> not above \<open>dt\<close> (equality included) the timestep is that float and the
  iteration ends at the float sum of \<open>t\<close> and it. Whether the last time is \<open>t_final\<close>, and
  whether the run returns, is left open.
\<close>

theorem run_history_times:
  assumes "t_init < t_final"
  shows "(\<forall>s. run genv self t_init t_final u_init s0 = Some (Inr s) \<longrightarrow>
          length (history s) = n_steps s + 1 \<and> 0 < n_steps s
        \<and> fst (hd (history s)) = t_init \<and> t_final \<le> fst (last (history s))
        \<and> (\<forall>k. Suc k < length (history s) \<longrightarrow> fst (history s ! k) < t_final))
    \<and> (\<forall>s s' dt0. iterates genv self t_init t_final u_init s0 s
          \<and> step self t_final s = Inr s' \<and> cfl_timestep self = Inr dt0
          \<and> fsub t_final (t_cur s) \<le> dt0
        \<longrightarrow> step_dt self t_final (t_cur s) = Inr (fsub t_final (t_cur s))
          \<and> t_cur s' = fadd (t_cur s) (fsub t_final (t_cur s)))"
proof (intro conjI allI impI)
  fix s assume r: "run genv self t_init t_final u_init s0 = Some (Inr s)"
  from run_Inr[OF r] have it: "iterates genv self t_init t_final u_init s0 s"
    and ge: "t_final \<le> t_cur s" by simp_all
  from iterates_history[OF it] have ne: "history s \<noteq> []"
    and hd: "fst (hd (history s)) = t_init" and la: "fst (last (history s)) = t_cur s"
    and len: "length (history s) = n_steps s + 1" by simp_all
  show "length (history s) = n_steps s + 1" by (rule len)
  show "fst (hd (history s)) = t_init" by (rule hd)
  show "t_final \<le> fst (last (history s))" using la ge by simp
  show "0 < n_steps s"
  proof (rule ccontr)
    assume "\<not> 0 < n_steps s"
    with len have "length (history s) = 1" by simp
    then have "hd (history s) = last (history s)"
      by (cases "history s") simp_all
    with hd la ge assms show False by simp
  qed
  fix k assume "Suc k < length (history s)"
  from iterates_earlier_times[OF it this] show "fst (history s ! k) < t_final" .
next
  fix s s' dt0
  assume a: "iterates genv self t_init t_final u_init s0 s
          \<and> step self t_final s = Inr s' \<and> cfl_timestep self = Inr dt0
          \<and> fsub t_final (t_cur s) \<le> dt0"
  from a iterates_buffers_ok obtain g :: Grid1D where
    ok: "buffers_ok (numVars (model self)) (nx g + 1) s" by blast
  from a have st: "step self t_final s = Inr s'" and c: "cfl_timestep self = Inr dt0"
    and le: "fsub t_final (t_cur s) \<le> dt0" by simp_all
  from step_time[OF ok st] c
  have "t_cur s' = fadd (t_cur s) (clamp_dt t_final (t_cur s) dt0)" by auto
  with le show "t_cur s' = fadd (t_cur s) (fsub t_final (t_cur s))" by (simp add: clamp_dt_def)
  from c le show "step_dt self t_final (t_cur s) = Inr (fsub t_final (t_cur s))"
    by (simp add: step_dt_def clamp_dt_def)
qed

theorem run_history_times_witness:
  "(0::real) < 1/2
   \<and> run (Some demo_grid) demo_stepper 0 (1/2) demo_u0 demo_state = Some (Inr demo_third)
   \<and> history demo_third = [(0, 3), (1/4, 4), (1/2, 5)]
   \<and> length (history demo_third) = n_steps demo_third + 1 \<and> 0 < n_steps demo_third
   \<and> fst (hd (history demo_third)) = 0 \<and> 1/2 \<le> fst (last (history demo_third))
   \<and> fst (history demo_third ! 1) < 1/2
   \<and> iterates (Some demo_grid) demo_stepper 0 (1/2) demo_u0 demo_state demo_second
   \<and> step demo_stepper (1/2) demo_second = Inr demo_third
   \<and> cfl_timestep demo_stepper = Inr (1/4)
   \<and> fsub (1/2) (t_cur demo_second) \<le> 1/4
   \<and> step_dt demo_stepper (1/2) (t_cur demo_second) = Inr (fsub (1/2) (t_cur demo_second))
   \<and> t_cur demo_third = fadd (t_cur demo_second) (fsub (1/2) (t_cur demo_second))"
proof -
  have h: "(0::real) < 1/2" by simp
  have d: "fsub (1/2) (t_cur demo_second) \<le> 1/4" by (simp add: demo_times demo_floats)
  have k: "Suc 1 < length (history demo_third)" by (simp add: demo_history)
  note T = run_history_times[OF h, of "Some demo_grid" demo_stepper demo_u0 demo_state]
  note T2 = T[THEN conjunct1, rule_format, OF demo_run]
  have "iterates (Some demo_grid) demo_stepper 0 (1/2) demo_u0 demo_state demo_second
          \<and> step demo_stepper (1/2) demo_second = Inr demo_third
          \<and> cfl_timestep demo_stepper = Inr (1/4)
          \<and> fsub (1/2) (t_cur demo_second) \<le> 1/4"
    using demo_iterates_second demo_third_eq demo_cfl d by (intro conjI)
  note T3 = T[THEN conjunct2, rule_format, OF this]
  show ?thesis
    by (intro conjI h demo_run demo_history(1) demo_iterates_second demo_third_eq demo_cfl d
          T2[THEN conjunct1] T2[THEN conjunct2, THEN conjunct1]
          T2[THEN conjunct2, THEN conjunct2, THEN conjunct1]
          T2[THEN conjunct2, THEN conjunct2, THEN conjunct2, THEN conjunct1]
          T2[THEN conjunct2, THEN conjunct2, THEN conjunct2, THEN conjunct2, rule_format, OF k]
          T3[THEN conjunct1] T3[THEN conjunct2])
qed

text \<open>
  C10. As stated the claim fails: the run from \<open>- 4\<close> to \<open>t05_next\<close>, the float next above
  \<open>0.5\<close>, with the timestep \<open>8\<close> of line 102, takes two iterations and both are clamped: the
  first with the float \<open>t05_next - (- 4)\<close>, which is \<open>4.5\<close>, and it ends at \<open>0.5\<close>, below
  \<open>t_final\<close>. So the timestep before the final clamped one is \<open>4.5\<close>, not \<open>8\<close>.
\<close>

theorem timestep_before_last_clamped:
  "run (Some wide_grid) wide_stepper (- 4) t05_next flat_u0 demo_state = Some (Inr twice_third)
   \<and> map fst (history twice_third) = [- 4, 1/2, t05_next]
   \<and> cfl_timestep wide_stepper = Inr 8
   \<and> step wide_stepper t05_next wide_first = Inr twice_second
   \<and> step_dt wide_stepper t05_next (t_cur wide_first) = Inr (9/2)
   \<and> step wide_stepper t05_next twice_second = Inr twice_third
   \<and> step_dt wide_stepper t05_next (t_cur twice_second) = Inr ulp05
   \<and> (9/2::real) \<noteq> 8"
proof -
  have a: "map fst (history twice_third) = [- 4, 1/2, t05_next]"
    by (simp add: twice_third_def)
  have b: "step_dt wide_stepper t05_next (t_cur wide_first) = Inr (9/2)"
    by (simp add: step_dt_def wide_cfl clamp_dt_def wide_times wide_floats)
  have c: "step_dt wide_stepper t05_next (t_cur twice_second) = Inr ulp05"
    by (simp add: step_dt_def wide_cfl clamp_dt_def wide_times wide_floats wide_consts)
  have d: "(9/2::real) \<noteq> 8" by simp
  show ?thesis
    by (intro conjI twice_run a wide_cfl twice_second_eq b twice_third_eq c d)
qed

text \<open>
  C10, amended. The eigenvalue loop reads the model and the grid only, so every iteration
  of a run gets the same \<open>lambda_max\<close> and the same timestep \<open>dt0\<close> of line 102, the float
  product of \<open>epsilon\<close> and the float quotient \<open>dx / lambda_max\<close>. Every recorded time but
  the last is below \<open>t_final\<close>, and the next recorded time is the float sum of it and the
  timestep taken there: \<open>dt0\<close>, unless the float \<open>t_final - t\<close> is not above \<open>dt0\<close>, which
  is then taken instead. More than one iteration of a run can be clamped.
\<close>

theorem timesteps_equal:
  assumes "iterates genv self t_init t_final u_init s0 s"
    and "Suc k < length (history s)"
  shows "\<exists>lambda_max dt0.
      lambda_max_loop (model self) (X (grid self)) 0 = Inr lambda_max \<and> 0 < lambda_max
    \<and> dt0 = fmul (epsilon self) (fdiv (dx (grid self)) lambda_max)
    \<and> cfl_timestep self = Inr dt0
    \<and> fst (history s ! k) < t_final
    \<and> fst (history s ! Suc k)
         = fadd (fst (history s ! k))
             (if fsub t_final (fst (history s ! k)) \<le> dt0
              then fsub t_final (fst (history s ! k)) else dt0)"
proof -
  from iterates_timesteps[OF assms] obtain dt0 where c: "cfl_timestep self = Inr dt0"
    and b: "fst (history s ! k) < t_final"
    and d: "fst (history s ! Suc k)
         = fadd (fst (history s ! k)) (clamp_dt t_final (fst (history s ! k)) dt0)" by blast
  from cfl_timestep_Inr[OF c] obtain lambda_max where
    l: "lambda_max_loop (model self) (X (grid self)) 0 = Inr lambda_max" and p: "0 < lambda_max"
    and e: "dt0 = fmul (epsilon self) (fdiv (dx (grid self)) lambda_max)" by blast
  show ?thesis
  proof (rule exI[of _ lambda_max], rule exI[of _ dt0], intro conjI)
    show "lambda_max_loop (model self) (X (grid self)) 0 = Inr lambda_max" by (rule l)
    show "0 < lambda_max" by (rule p)
    show "dt0 = fmul (epsilon self) (fdiv (dx (grid self)) lambda_max)" by (rule e)
    show "cfl_timestep self = Inr dt0" by (rule c)
    show "fst (history s ! k) < t_final" by (rule b)
    show "fst (history s ! Suc k)
         = fadd (fst (history s ! k))
             (if fsub t_final (fst (history s ! k)) \<le> dt0
              then fsub t_final (fst (history s ! k)) else dt0)"
      using d by (simp only: clamp_dt_def)
  qed
qed

theorem timesteps_equal_witness:
  "iterates (Some demo_grid) demo_stepper 0 (1/2) demo_u0 demo_state demo_third
   \<and> Suc 0 < length (history demo_third)
   \<and> history demo_third = [(0, 3), (1/4, 4), (1/2, 5)]
   \<and> (\<exists>lambda_max dt0.
      lambda_max_loop (model demo_stepper) (X (grid demo_stepper)) 0 = Inr lambda_max
    \<and> 0 < lambda_max
    \<and> dt0 = fmul (epsilon demo_stepper) (fdiv (dx (grid demo_stepper)) lambda_max)
    \<and> cfl_timestep demo_stepper = Inr dt0
    \<and> fst (history demo_third ! 0) < 1/2
    \<and> fst (history demo_third ! Suc 0)
         = fadd (fst (history demo_third ! 0))
             (if fsub (1/2) (fst (history demo_third ! 0)) \<le> dt0
              then fsub (1/2) (fst (history demo_third ! 0)) else dt0))"
proof -
  have l: "Suc 0 < length (history demo_third)" by (simp add: demo_history)
  note E = timesteps_equal[OF demo_iterates_third l]
  show ?thesis by (intro conjI demo_iterates_third l demo_history(1) E)
qed

text \<open>
  C5. At every state at the loop test of \<^verbatim>\<open>run\<close>, and at the state \<^verbatim>\<open>run\<close> returns
  with: every history entry refers to an array of its own, different from the three
  working buffers and from the arrays of the other entries; the last entry holds the time
  and the contents of \<^verbatim>\<open>u_cur\<close> as they are when it is recorded; whatever is then written
  into the three buffers, the recorded states read the same; and every further iteration
  of the run leaves the entries recorded so far as they are, adding its own at the end.
\<close>

theorem history_entries_are_copies:
  assumes "iterates genv self t_init t_final u_init s0 s
           \<or> run genv self t_init t_final u_init s0 = Some (Inr s)"
  shows "list_all (\<lambda>e. snd e \<noteq> u_prev s \<and> snd e \<noteq> u_pred s \<and> snd e \<noteq> u_cur s) (history s)
    \<and> distinct (map snd (history s))
    \<and> last (snapshots s) = (t_cur s, cells s (u_cur s))
    \<and> (\<forall>cells'. (\<forall>a. a \<noteq> u_prev s \<and> a \<noteq> u_pred s \<and> a \<noteq> u_cur s \<longrightarrow> cells' a = cells s a)
          \<longrightarrow> snapshots (s\<lparr>cells := cells'\<rparr>) = snapshots s)
    \<and> (\<forall>s'. (advance self t_final)\<^sup>*\<^sup>* s s'
          \<longrightarrow> take (length (snapshots s)) (snapshots s') = snapshots s)"
proof -
  from assms run_Inr have it: "iterates genv self t_init t_final u_init s0 s" by blast
  from iterates_heap[OF it] have
    "list_all (\<lambda>e. snd e \<noteq> u_prev s \<and> snd e \<noteq> u_pred s \<and> snd e \<noteq> u_cur s) (history s)"
    and "distinct (map snd (history s))"
    by (simp_all add: list_all_iff)
  moreover note snapshots_last[OF it]
  moreover have "\<forall>cells'. (\<forall>a. a \<noteq> u_prev s \<and> a \<noteq> u_pred s \<and> a \<noteq> u_cur s
          \<longrightarrow> cells' a = cells s a) \<longrightarrow> snapshots (s\<lparr>cells := cells'\<rparr>) = snapshots s"
    using snapshots_frame[OF it] by blast
  moreover have "\<forall>s'. (advance self t_final)\<^sup>*\<^sup>* s s'
          \<longrightarrow> take (length (snapshots s)) (snapshots s') = snapshots s"
    using advance_iterates[OF _ it] by blast
  ultimately show ?thesis by blast
qed

theorem history_entries_are_copies_witness:
  "iterates (Some demo_grid) demo_stepper 0 (1/2) demo_u0 demo_state demo_second
   \<and> snapshots demo_second = [(0, [[0], [1], [4]]), (1/4, [[1/4], [7/16], [1]])]
   \<and> list_all (\<lambda>e. snd e \<noteq> u_prev demo_second \<and> snd e \<noteq> u_pred demo_second
                     \<and> snd e \<noteq> u_cur demo_second) (history demo_second)
   \<and> distinct (map snd (history demo_second))
   \<and> last (snapshots demo_second) = (t_cur demo_second, cells demo_second (u_cur demo_second))
   \<and> snapshots (demo_second\<lparr>cells := (cells demo_second)(0 := [], 1 := [], 2 := [])\<rparr>)
        = snapshots demo_second
   \<and> (advance demo_stepper (1/2))\<^sup>*\<^sup>* demo_second demo_third
   \<and> take (length (snapshots demo_second)) (snapshots demo_third) = snapshots demo_second"
proof -
  note T = history_entries_are_copies[OF disjI1[OF demo_iterates_second]]
  have a: "\<forall>a. a \<noteq> u_prev demo_second \<and> a \<noteq> u_pred demo_second \<and> a \<noteq> u_cur demo_second
        \<longrightarrow> ((cells demo_second)(0 := [], 1 := [], 2 := [])) a = cells demo_second a"
    by (simp add: demo_second_def)
  have b: "(advance demo_stepper (1/2))\<^sup>*\<^sup>* demo_second demo_third"
    using demo_advance by (rule r_into_rtranclp)
  show ?thesis
    by (intro conjI demo_iterates_second demo_snapshots(2) b
          T[THEN conjunct1] T[THEN conjunct2, THEN conjunct1]
          T[THEN conjunct2, THEN conjunct2, THEN conjunct1]
          T[THEN conjunct2, THEN conjunct2, THEN conjunct2, THEN conjunct1, THEN spec, THEN mp, OF a]
          T[THEN conjunct2, THEN conjunct2, THEN conjunct2, THEN conjunct2, THEN spec, THEN mp, OF b])
qed

text \<open>
  C6. As stated the claim fails: \<^verbatim>\<open>run\<close> with \<open>t_init = t_final = 0\<close>, and with
  \<open>t_init = 0 > t_final = - 1\<close>, returns normally, with no iteration made and one history
  entry.
\<close>

theorem run_accepts_empty_range:
  "run (Some demo_grid) demo_stepper 0 0 demo_u0 demo_state = Some (Inr demo_first)
   \<and> run (Some demo_grid) demo_stepper 0 (- 1) demo_u0 demo_state = Some (Inr demo_first)
   \<and> n_steps demo_first = 0
   \<and> snapshots demo_first = [(0, demo_u0)]"
proof -
  have a: "run_loop demo_stepper 0 demo_first = Some (Inr demo_first)"
    by (subst run_loop.simps) (simp add: demo_times)
  have b: "run_loop demo_stepper (- 1) demo_first = Some (Inr demo_first)"
    by (subst run_loop.simps) (simp add: demo_times)
  have c: "n_steps demo_first = 0" by (simp add: demo_first_def)
  have d: "snapshots demo_first = [(0, demo_u0)]" by (simp add: demo_snapshots demo_u0_def)
  from a b c d show ?thesis by (simp add: run_def demo_first_eq)
qed

text \<open>
  C6, amended. \<^verbatim>\<open>run\<close> does not check the range of times and never fails with
  \<open>InvalidRangeError\<close>. For \<open>t_init \<ge> t_final\<close> it does what lines 55 to 82 do and
  nothing else: when these lines raise (\<open>NameError\<close> for the global \<^verbatim>\<open>grid\<close>,
  \<open>ValueError\<close> for an initial value that cannot be broadcast), so does the run;
  otherwise it returns normally, with no iteration made, no boundary updater called, and the
  history holding the single entry of \<open>t_init\<close> and the initial value, broadcast to the
  shape of the buffers.
\<close>

theorem run_without_range_check:
  assumes "t_final \<le> t_init"
  shows "run genv self t_init t_final u_init s0 = Some (run_init genv self t_init u_init s0)
    \<and> (\<forall>e. run genv self t_init t_final u_init s0 = Some (Inl e)
          \<longrightarrow> e = NameError \<or> e = ValueError)
    \<and> (\<forall>s. run genv self t_init t_final u_init s0 = Some (Inr s) \<longrightarrow>
          n_steps s = 0 \<and> calls s = calls s0 \<and> t_cur s = t_init
        \<and> snapshots s = [(t_init, cells s (u_cur s))]
        \<and> (\<exists>g. genv = Some g
             \<and> copyto (zeros (numVars (model self)) (nx g + 1)) u_init = Inr (cells s (u_cur s))))"
proof -
  have r: "run genv self t_init t_final u_init s0 = Some (run_init genv self t_init u_init s0)"
  proof (cases "run_init genv self t_init u_init s0")
    case (Inl e)
    then show ?thesis by (simp add: run_def)
  next
    case (Inr s)
    from run_init_Inr[OF Inr] assms have "\<not> t_cur s < t_final" by auto
    then have "run_loop self t_final s = Some (Inr s)" by (subst run_loop.simps) simp
    with Inr show ?thesis by (simp add: run_def)
  qed
  have e: "e = NameError \<or> e = ValueError"
    if "run genv self t_init t_final u_init s0 = Some (Inl e)" for e
  proof -
    from that r have i: "run_init genv self t_init u_init s0 = Inl e" by simp
    then show ?thesis
      by (cases genv) (auto simp: run_init_def Let_def bindE_Inl_iff dest: copyto_Inl)
  qed
  have s: "n_steps s = 0 \<and> calls s = calls s0 \<and> t_cur s = t_init
        \<and> snapshots s = [(t_init, cells s (u_cur s))]
        \<and> (\<exists>g. genv = Some g
             \<and> copyto (zeros (numVars (model self)) (nx g + 1)) u_init = Inr (cells s (u_cur s)))"
    if "run genv self t_init t_final u_init s0 = Some (Inr s)" for s
  proof -
    from that r have i: "run_init genv self t_init u_init s0 = Inr s" by simp
    from run_init_Inr[OF i] show ?thesis by (auto simp: snapshots_def)
  qed
  from r e s show ?thesis by blast
qed

theorem run_without_range_check_witness:
  "(0::real) \<le> 0
   \<and> run (Some demo_grid) demo_stepper 0 0 demo_u0 demo_state
        = Some (run_init (Some demo_grid) demo_stepper 0 demo_u0 demo_state)
   \<and> run (Some demo_grid) demo_stepper 0 0 demo_u0 demo_state = Some (Inr demo_first)
   \<and> n_steps demo_first = 0 \<and> calls demo_first = calls demo_state \<and> t_cur demo_first = 0
   \<and> snapshots demo_first = [(0, cells demo_first (u_cur demo_first))]
   \<and> (\<exists>g. Some demo_grid = Some g
        \<and> copyto (zeros (numVars (model demo_stepper)) (nx g + 1)) demo_u0
            = Inr (cells demo_first (u_cur demo_first)))"
proof -
  have h: "(0::real) \<le> 0" by simp
  note T = run_without_range_check[OF h, of "Some demo_grid" demo_stepper demo_u0 demo_state]
  have r: "run (Some demo_grid) demo_stepper 0 0 demo_u0 demo_state = Some (Inr demo_first)"
    using T[THEN conjunct1] by (simp add: demo_first_eq)
  note S = T[THEN conjunct2, THEN conjunct2, rule_format, OF r]
  show ?thesis
    by (intro conjI h T[THEN conjunct1] r S[THEN conjunct1]
          S[THEN conjunct2, THEN conjunct1] S[THEN conjunct2, THEN conjunct2, THEN conjunct1]
          S[THEN conjunct2, THEN conjunct2, THEN conjunct2, THEN conjunct1]
          S[THEN conjunct2, THEN conjunct2, THEN conjunct2, THEN conjunct2])
qed





end
